theory Spec2Isabelle
  imports Complex_Main "HOL-Library.Word" "HOL-Library.Stream" "HOL-Library.Log_Nat"
    "HOL-Library.Multiset"
begin

section \<open>JavaScript numbers\<close>

text \<open>
  A JavaScript number is a binary64 float. Its finite values are rationals, and an
  arithmetic operation returns the exact result rounded to the nearest value with a
  53-bit significand, ties to the even significand. \<open>binary64\<close> is this rounding with
  an unbounded exponent; it is used where the results stay in the normal range (the
  products \<^verbatim>\<open>Math.random() * area\<close>, and an accumulator fed with speed levels between
  0.01 and 20). \<open>round_half_even\<close> rounds a rational to an integer.
\<close>

definition round_half_even :: "rat \<Rightarrow> int" where
  "round_half_even m =
     (let fl = \<lfloor>m\<rfloor>;
          d = m - of_int fl
      in if d < 1 / 2 then fl
         else if 1 / 2 < d then fl + 1
         else if even fl then fl else fl + 1)"

text \<open>
  The binary exponent of a rational \<open>x \<noteq> 0\<close>: the \<open>e\<close> with \<open>2\<^sup>e \<le> |x| < 2\<^sup>e\<^sup>+\<^sup>1\<close>. The
  difference of the bit lengths of numerator and denominator is \<open>e\<close> or \<open>e + 1\<close>.
\<close>

definition ilog2 :: "rat \<Rightarrow> int" where
  "ilog2 x =
     (let a = fst (quotient_of \<bar>x\<bar>);
          b = snd (quotient_of \<bar>x\<bar>);
          e = bitlen a - bitlen b
      in if 2 powi e \<le> \<bar>x\<bar> then e else e - 1)"

definition binary64 :: "rat \<Rightarrow> rat" where
  "binary64 x =
     (if x = 0 then 0
      else (let q = 2 powi (52 - ilog2 x)
            in of_int (round_half_even (x * q)) / q))"

text \<open>A rational is representable when rounding returns it.\<close>

definition representable :: "rat \<Rightarrow> bool" where
  "representable x = (binary64 x = x)"

text \<open>
  Where a result can leave the finite range, a number is a finite value, an infinity
  or \<^verbatim>\<open>NaN\<close>. The zero is the positive zero.
\<close>

datatype jsnum = Num rat | PosInf | NegInf | NaN

text \<open>A rounded magnitude of \<open>2\<^sup>1\<^sup>0\<^sup>2\<^sup>4\<close> or more is outside the finite doubles.\<close>

definition overflow_threshold :: rat where
  "overflow_threshold = 2 ^ 1024"

text \<open>The same rounding to an integer, on the reals.\<close>

definition round_half_even_real :: "real \<Rightarrow> int" where
  "round_half_even_real m =
     (let fl = \<lfloor>m\<rfloor>;
          d = m - of_int fl
      in if d < 1 / 2 then fl
         else if 1 / 2 < d then fl + 1
         else if even fl then fl else fl + 1)"

text \<open>
  A real rounded to a double with the exponent range of the format: below \<open>2\<^sup>-\<^sup>1\<^sup>0\<^sup>2\<^sup>2\<close>
  the values are the multiples of \<open>2\<^sup>-\<^sup>1\<^sup>0\<^sup>7\<^sup>4\<close> (so a small enough result is 0), and a
  rounded magnitude of \<open>2\<^sup>1\<^sup>0\<^sup>2\<^sup>4\<close> or more is an infinity.
\<close>

definition round_double :: "real \<Rightarrow> jsnum" where
  "round_double y =
     (if y = 0 then Num 0
      else (let e = max \<lfloor>log 2 \<bar>y\<bar>\<rfloor> (- 1022);
                m = round_half_even_real (y * 2 powi (52 - e));
                v = of_int m * 2 powi (e - 52)
            in if overflow_threshold \<le> \<bar>v\<bar> then (if 0 < y then PosInf else NegInf) else Num v))"

text \<open>
  \<^verbatim>\<open>Math.exp\<close> is a function of the runtime, which the language leaves free in the
  last place: the sweep takes it as an argument. \<open>exp_rounded\<close> is the \<^verbatim>\<open>Math.exp\<close> that
  returns the exponential rounded to the nearest double, with the values the
  language fixes at the infinities and at \<^verbatim>\<open>NaN\<close>.
\<close>

definition exp_rounded :: "jsnum \<Rightarrow> jsnum" where
  "exp_rounded a =
     (case a of
        Num x \<Rightarrow> round_double (exp (real_of_rat x))
      | PosInf \<Rightarrow> PosInf
      | NegInf \<Rightarrow> Num 0
      | NaN \<Rightarrow> NaN)"

section \<open>The lattice\<close>

text \<open>
  The grid is an \<^verbatim>\<open>Int8Array\<close>: a list of 8-bit words, read as signed integers.
  Reading a typed array outside its range gives \<^verbatim>\<open>undefined\<close>, and arithmetic on
  \<^verbatim>\<open>undefined\<close> gives \<^verbatim>\<open>NaN\<close>; both are the value \<open>None\<close> here. A store outside
  the range is ignored, which is what \<open>xs[i := v]\<close> does.
\<close>

type_synonym int8 = "8 word"
type_synonym grid = "int8 list"

definition cell :: "grid \<Rightarrow> nat \<Rightarrow> int option" where
  "cell g i = (if i < length g then Some (sint (g ! i)) else None)"

definition num_add :: "int option \<Rightarrow> int option \<Rightarrow> int option" where
  "num_add a b = (case a of None \<Rightarrow> None | Some x \<Rightarrow> (case b of None \<Rightarrow> None | Some y \<Rightarrow> Some (x + y)))"

definition num_mul :: "int option \<Rightarrow> int option \<Rightarrow> int option" where
  "num_mul a b = (case a of None \<Rightarrow> None | Some x \<Rightarrow> (case b of None \<Rightarrow> None | Some y \<Rightarrow> Some (x * y)))"

definition num_neg :: "int option \<Rightarrow> int option" where
  "num_neg a = (case a of None \<Rightarrow> None | Some x \<Rightarrow> Some (- x))"

text \<open>\<^verbatim>\<open>dE <= 0\<close>: a comparison with \<^verbatim>\<open>NaN\<close> is false.\<close>

definition num_le0 :: "int option \<Rightarrow> bool" where
  "num_le0 a = (case a of None \<Rightarrow> False | Some x \<Rightarrow> x \<le> 0)"

text \<open>A store into an \<^verbatim>\<open>Int8Array\<close> wraps the number to 8 bits; \<^verbatim>\<open>NaN\<close> is stored as 0.\<close>

definition to_int8 :: "int option \<Rightarrow> int8" where
  "to_int8 a = (case a of None \<Rightarrow> 0 | Some x \<Rightarrow> word_of_int x)"

text \<open>
  \<^verbatim>\<open>(x + 1) % N\<close> and \<^verbatim>\<open>(x - 1 + N) % N\<close>. The second is computed over the integers,
  since \<^verbatim>\<open>x - 1\<close> is \<open>-1\<close> at \<open>x = 0\<close>. Both are only reached with \<open>N > 0\<close>.
\<close>

definition wrap_inc :: "nat \<Rightarrow> nat \<Rightarrow> nat" where
  "wrap_inc N x = (x + 1) mod N"

definition wrap_dec :: "nat \<Rightarrow> nat \<Rightarrow> nat" where
  "wrap_dec N x = nat ((int x - 1 + int N) mod int N)"

definition is_lattice :: "grid \<Rightarrow> nat \<Rightarrow> bool" where
  "is_lattice g N = (length g = N * N \<and> list_all (\<lambda>c. c = 1 \<or> c = - 1) g)"

section \<open>performMCS\<close>

definition neighborSum :: "grid \<Rightarrow> nat \<Rightarrow> nat \<Rightarrow> int option" where
  "neighborSum g N idx =
     (let x = idx mod N;
          y = idx div N;
          left = cell g (y * N + wrap_dec N x);
          right = cell g (y * N + wrap_inc N x);
          top = cell g (wrap_dec N y * N + x);
          bottom = cell g (wrap_inc N y * N + x)
      in num_add (num_add (num_add left right) top) bottom)"

definition energyDelta :: "grid \<Rightarrow> nat \<Rightarrow> nat \<Rightarrow> int option" where
  "energyDelta g N idx = num_mul (num_mul (Some 2) (cell g idx)) (neighborSum g N idx)"

text \<open>
  \<^verbatim>\<open>-dE / temperature\<close> for the keys \<open>dE = 4\<close> and \<open>dE = 8\<close> of the table and a finite
  temperature: the quotient rounded, an infinity when the rounded magnitude leaves
  the range, and \<^verbatim>\<open>-Infinity\<close> at the temperature 0. The quotient of a key by a finite
  double is never below the normal range.
\<close>

definition neg_div :: "int \<Rightarrow> rat \<Rightarrow> jsnum" where
  "neg_div dE T =
     (if T = 0 then NegInf
      else (let q = binary64 (- of_int dE / T)
            in if overflow_threshold \<le> \<bar>q\<bar> then (if q < 0 then NegInf else PosInf) else Num q))"

text \<open>
  The table built at the start of a sweep, by \<^verbatim>\<open>[4, 8].forEach\<close>:
  \<^verbatim>\<open>expTable[dE] = Math.exp(-dE / temperature)\<close>.
\<close>

definition expTable :: "(jsnum \<Rightarrow> jsnum) \<Rightarrow> rat \<Rightarrow> int \<Rightarrow> jsnum option" where
  "expTable mathExp T = [4 \<mapsto> mathExp (neg_div 4 T), 8 \<mapsto> mathExp (neg_div 8 T)]"

text \<open>\<^verbatim>\<open>u < p\<close> for a finite \<open>u\<close>: false when \<open>p\<close> is \<^verbatim>\<open>NaN\<close>.\<close>

definition js_less :: "rat \<Rightarrow> jsnum \<Rightarrow> bool" where
  "js_less u p = (case p of Num v \<Rightarrow> u < v | PosInf \<Rightarrow> True | NegInf \<Rightarrow> False | NaN \<Rightarrow> False)"

text \<open>
  \<^verbatim>\<open>Math.random() < expTable[dE]\<close>, for a draw \<open>u\<close>: false when the entry is missing
  (the key is \<^verbatim>\<open>NaN\<close> or not in the table), since \<^verbatim>\<open>undefined\<close> compares as \<^verbatim>\<open>NaN\<close>.
\<close>

definition accepts :: "rat \<Rightarrow> (int \<Rightarrow> jsnum option) \<Rightarrow> int option \<Rightarrow> bool" where
  "accepts u tbl dE =
     (case dE of
        None \<Rightarrow> False
      | Some d \<Rightarrow> (case tbl d of None \<Rightarrow> False | Some p \<Rightarrow> js_less u p))"

text \<open>
  One iteration of the loop of \<^verbatim>\<open>performMCS\<close>. The ambient \<^verbatim>\<open>Math.random\<close> is a
  stream of draws, each a double in \<open>[0, 1)\<close>: the head is the next draw. The site is
  the floor of the rounded product \<^verbatim>\<open>Math.random() * area\<close>. The second draw is made
  in the \<^verbatim>\<open>else\<close> branch only.
\<close>

definition flip_attempt :: "(int \<Rightarrow> jsnum option) \<Rightarrow> nat \<Rightarrow> grid \<times> rat stream \<Rightarrow> grid \<times> rat stream" where
  "flip_attempt tbl N st =
     (let g = fst st;
          r = snd st;
          area = N * N;
          idx = nat \<lfloor>binary64 (shd r * of_nat area)\<rfloor>;
          s = cell g idx;
          dE = energyDelta g N idx
      in if num_le0 dE then (g[idx := to_int8 (num_neg s)], stl r)
         else if accepts (shd (stl r)) tbl dE then (g[idx := to_int8 (num_neg s)], stl (stl r))
         else (g, stl (stl r)))"

fun attempts :: "(int \<Rightarrow> jsnum option) \<Rightarrow> nat \<Rightarrow> nat \<Rightarrow> grid \<times> rat stream \<Rightarrow> grid \<times> rat stream" where
  "attempts tbl N 0 st = st"
| "attempts tbl N (Suc k) st = attempts tbl N k (flip_attempt tbl N st)"

definition performMCS :: "(jsnum \<Rightarrow> jsnum) \<Rightarrow> grid \<Rightarrow> nat \<Rightarrow> rat \<Rightarrow> rat stream \<Rightarrow> grid \<times> rat stream" where
  "performMCS mathExp g N T r = attempts (expTable mathExp T) N (N * N) (g, r)"

section \<open>createGrid\<close>

text \<open>Every cell is written once, in index order, from one draw each.\<close>

function create_loop :: "nat \<Rightarrow> grid \<Rightarrow> rat stream \<Rightarrow> grid \<times> rat stream" where
  "create_loop i g r =
     (if i < length g
      then create_loop (i + 1) (g[i := (if 1 / 2 < shd r then 1 else - 1)]) (stl r)
      else (g, r))"
  by pat_completeness auto
termination
  by (relation "measure (\<lambda>(i, g, r). length g - i)") auto

declare create_loop.simps [simp del]

definition createGrid :: "nat \<Rightarrow> rat stream \<Rightarrow> grid \<times> rat stream" where
  "createGrid n r = create_loop 0 (replicate (n * n) 0) r"

section \<open>analyzeDomains\<close>

text \<open>
  The state of the traversal. The grid is part of it, since the function holds a
  reference to the caller's array; \<open>visited\<close> is the \<^verbatim>\<open>Uint8Array\<close> of marks (only 0 and 1
  are ever stored, so a mark is a truth value); \<open>queue\<close> is the frontier, with
  \<^verbatim>\<open>push\<close> adding at the end and \<^verbatim>\<open>pop\<close> taking from the end.
\<close>

record scan =
  lattice :: grid
  visited :: "bool list"
  queue :: "nat list"
  currentSize :: nat
  clusterSizes :: "nat list"

definition getIdx :: "nat \<Rightarrow> nat \<Rightarrow> nat \<Rightarrow> nat" where
  "getIdx N x y = y * N + x"

text \<open>\<^verbatim>\<open>visited[i]\<close> as a condition: outside the range it is \<^verbatim>\<open>undefined\<close>, which is falsy.\<close>

definition is_visited :: "bool list \<Rightarrow> nat \<Rightarrow> bool" where
  "is_visited v i = (i < length v \<and> v ! i)"

definition neighbors :: "nat \<Rightarrow> nat \<Rightarrow> nat list" where
  "neighbors N cur =
     (let cx = cur mod N;
          cy = cur div N
      in [getIdx N (wrap_inc N cx) cy,
          getIdx N (wrap_dec N cx) cy,
          getIdx N cx (wrap_inc N cy),
          getIdx N cx (wrap_dec N cy)])"

definition visit_neighbor :: "int option \<Rightarrow> nat \<Rightarrow> scan \<Rightarrow> scan" where
  "visit_neighbor spinType nIdx s =
     (if \<not> is_visited (visited s) nIdx \<and> cell (lattice s) nIdx = spinType
      then s\<lparr>visited := (visited s)[nIdx := True], queue := queue s @ [nIdx]\<rparr>
      else s)"

text \<open>The body of the \<^verbatim>\<open>while\<close> loop: pop, count, look at the four neighbours in order.\<close>

definition flood_step :: "int option \<Rightarrow> nat \<Rightarrow> scan \<Rightarrow> scan" where
  "flood_step spinType N s =
     (let cur = last (queue s);
          s1 = s\<lparr>queue := butlast (queue s), currentSize := currentSize s + 1\<rparr>
      in fold (visit_neighbor spinType) (neighbors N cur) s1)"

text \<open>The \<^verbatim>\<open>while (queue.length > 0)\<close> loop; \<open>None\<close> is a loop that never ends.\<close>

partial_function (option) flood :: "int option \<Rightarrow> nat \<Rightarrow> scan \<Rightarrow> scan option" where
  "flood spinType N s =
     (if queue s \<noteq> [] then flood spinType N (flood_step spinType N s) else Some s)"

declare flood.simps [code]

text \<open>The \<^verbatim>\<open>for x\<close> loop of row \<open>y\<close>, from column \<open>x\<close> on.\<close>

function scan_row :: "nat \<Rightarrow> nat \<Rightarrow> nat \<Rightarrow> scan \<Rightarrow> scan option" where
  "scan_row N y x s =
     (if x < N then
        (let startIdx = getIdx N x y in
         if is_visited (visited s) startIdx then scan_row N y (x + 1) s
         else
           (case flood (cell (lattice s) startIdx) N
                   (s\<lparr>currentSize := 0, queue := [startIdx],
                      visited := (visited s)[startIdx := True]\<rparr>) of
              None \<Rightarrow> None
            | Some s' \<Rightarrow>
                scan_row N y (x + 1) (s'\<lparr>clusterSizes := clusterSizes s' @ [currentSize s']\<rparr>)))
      else Some s)"
  by pat_completeness auto
termination
  by (relation "measure (\<lambda>(N, y, x, s). N - x)") auto

declare scan_row.simps [simp del]

text \<open>The \<^verbatim>\<open>for y\<close> loop, from row \<open>y\<close> on.\<close>

function scan_rows :: "nat \<Rightarrow> nat \<Rightarrow> scan \<Rightarrow> scan option" where
  "scan_rows N y s =
     (if y < N then
        (case scan_row N y 0 s of None \<Rightarrow> None | Some s' \<Rightarrow> scan_rows N (y + 1) s')
      else Some s)"
  by pat_completeness auto
termination
  by (relation "measure (\<lambda>(N, y, s). N - y)") auto

declare scan_rows.simps [simp del]

definition domainScan :: "grid \<Rightarrow> nat \<Rightarrow> scan option" where
  "domainScan g N =
     scan_rows N 0
       \<lparr>lattice = g, visited = replicate (N * N) False, queue = [], currentSize = 0,
        clusterSizes = []\<rparr>"

text \<open>
  \<^verbatim>\<open>distribution[s] = (distribution[s] || 0) + 1\<close> on an object used as a dictionary, as
  an association list with one entry per key. A stored count is never 0, so the
  default is taken for a missing key only.
\<close>

fun tally :: "(nat \<times> nat) list \<Rightarrow> nat \<Rightarrow> (nat \<times> nat) list" where
  "tally [] s = [(s, 1)]"
| "tally ((k, c) # d) s = (if k = s then (k, c + 1) # d else (k, c) # tally d s)"

text \<open>
  The entries as \<open>(size, count)\<close> pairs, sorted by size. The keys are distinct, so the
  order in which \<^verbatim>\<open>Object.entries\<close> lists them does not show in the sorted result.
\<close>

definition domainData :: "nat list \<Rightarrow> (nat \<times> nat) list" where
  "domainData sizes = sort_key fst (foldl tally [] sizes)"

text \<open>The result: the grid as the call leaves it, and the returned distribution.\<close>

definition analyzeDomains :: "grid \<Rightarrow> nat \<Rightarrow> (grid \<times> (nat \<times> nat) list) option" where
  "analyzeDomains g N =
     (case domainScan g N of
        None \<Rightarrow> None
      | Some s \<Rightarrow> Some (lattice s, domainData (clusterSizes s)))"

section \<open>The application: scheduler, throttle, reset and step\<close>

text \<open>
  The state of the component, and with it the two functions of the runtime that the
  code calls: \<open>rng\<close>, the draws of \<^verbatim>\<open>Math.random\<close> still to come, and \<open>mathExp\<close>, its
  \<^verbatim>\<open>Math.exp\<close>. The calls of \<^verbatim>\<open>performMCS\<close> and \<^verbatim>\<open>analyzeDomains\<close> are logged in
  \<open>calls\<close>, a field the source does not have, so that a statement can count them.
\<close>

datatype call = Sweep | Analyze

record app =
  size_state :: nat
  gridData :: grid
  stats :: "(nat \<times> nat) list"
  isRunning :: bool
  gridRef :: grid
  runningRef :: bool
  tempRef :: rat
  sizeRef :: nat
  speedRef :: rat
  accumulatorRef :: rat
  frameCountRef :: nat
  rng :: "rat stream"
  mathExp :: "jsnum \<Rightarrow> jsnum"
  calls :: "call list"

definition sweep :: "app \<Rightarrow> app" where
  "sweep st =
     (let res = performMCS (mathExp st) (gridRef st) (sizeRef st) (tempRef st) (rng st)
      in st\<lparr>gridRef := fst res, rng := snd res, calls := calls st @ [Sweep]\<rparr>)"

fun sweeps :: "nat \<Rightarrow> app \<Rightarrow> app" where
  "sweeps 0 st = st"
| "sweeps (Suc i) st = sweeps i (sweep st)"

definition analyse :: "app \<Rightarrow> app option" where
  "analyse st =
     (case analyzeDomains (gridRef st) (sizeRef st) of
        None \<Rightarrow> None
      | Some res \<Rightarrow> Some (st\<lparr>gridRef := fst res, stats := snd res, calls := calls st @ [Analyze]\<rparr>))"

text \<open>The accumulator after \<^verbatim>\<open>accumulatorRef.current += speedRef.current\<close>.\<close>

definition accumulated :: "app \<Rightarrow> rat" where
  "accumulated st = binary64 (accumulatorRef st + speedRef st)"

definition updatesToPerform :: "app \<Rightarrow> int" where
  "updatesToPerform st = \<lfloor>accumulated st\<rfloor>"

definition shouldUpdateStats :: "app \<Rightarrow> bool" where
  "shouldUpdateStats st = (speedRef st < 1 \<or> frameCountRef st mod 10 = 0)"

text \<open>One call of \<^verbatim>\<open>loop\<close> by the animation clock.\<close>

definition loop :: "app \<Rightarrow> app option" where
  "loop st =
     (if runningRef st then
        (let st1 = st\<lparr>accumulatorRef := accumulated st\<rparr>;
             n = updatesToPerform st
         in if 0 < n then
              (let st2 = st1\<lparr>accumulatorRef := binary64 (accumulatorRef st1 - of_int n)\<rparr>;
                   st3 = sweeps (nat n) st2;
                   st4 = st3\<lparr>gridData := gridRef st3\<rparr>;
                   st5 = st4\<lparr>frameCountRef := frameCountRef st4 + 1\<rparr>
               in if shouldUpdateStats st5 then analyse st5 else Some st5)
            else Some st1)
      else Some st)"

text \<open>\<open>n\<close> calls of \<^verbatim>\<open>loop\<close> in a row.\<close>

fun ticks :: "nat \<Rightarrow> app \<Rightarrow> app option" where
  "ticks 0 st = Some st"
| "ticks (Suc n) st = (case loop st of None \<Rightarrow> None | Some st' \<Rightarrow> ticks n st')"

text \<open>
  \<^verbatim>\<open>setIsRunning(false)\<close> sets the state, and the effect that follows it copies the
  state into \<open>runningRef\<close>.
\<close>

definition handleReset :: "app \<Rightarrow> app" where
  "handleReset st =
     (let res = createGrid (size_state st) (rng st)
      in st\<lparr>gridRef := fst res, gridData := fst res, rng := snd res, stats := [],
            isRunning := False, runningRef := False, frameCountRef := 0,
            accumulatorRef := 0\<rparr>)"

definition handleStep :: "app \<Rightarrow> app option" where
  "handleStep st =
     (let st1 = sweep st;
          st2 = st1\<lparr>gridData := gridRef st1\<rparr>
      in analyse st2)"

definition count_calls :: "call \<Rightarrow> app \<Rightarrow> nat" where
  "count_calls c st = count_list (calls st) c"

section \<open>The accumulator of the scheduler\<close>

text \<open>
  What one call of \<open>loop\<close> does to the accumulator of a running application, and how
  many sweeps it makes: the arithmetic of \<open>loop\<close> alone, on the speed \<open>f\<close> and the
  accumulator \<open>a\<close>. \<open>run_acc\<close> repeats it and adds up the sweeps.
\<close>

definition tick_acc :: "rat \<Rightarrow> rat \<Rightarrow> rat \<times> nat" where
  "tick_acc f a =
     (let a1 = binary64 (a + f);
          n = \<lfloor>a1\<rfloor>
      in if 0 < n then (binary64 (a1 - of_int n), nat n) else (a1, 0))"

fun run_acc :: "rat \<Rightarrow> nat \<Rightarrow> rat \<times> nat \<Rightarrow> rat \<times> nat" where
  "run_acc f 0 p = p"
| "run_acc f (Suc n) p = run_acc f n (fst (tick_acc f (fst p)), snd p + snd (tick_acc f (fst p)))"

text \<open>
  A run of \<open>n\<close> ticks at the speed \<open>f\<close> from the accumulator 0 is exact when no
  addition and no subtraction of the run is rounded: the exact sums \<open>frac (f k) + f\<close>
  and the exact remainders \<open>frac (f (k + 1))\<close> are representable.
\<close>

definition exact_run :: "rat \<Rightarrow> nat \<Rightarrow> bool" where
  "exact_run f n =
     list_all (\<lambda>k. representable (frac (f * of_nat k) + f) \<and>
                   representable (frac (f * of_nat (Suc k))))
       [0..<n]"

text \<open>
  A running application on the lattice of side 1, with the speed \<open>f\<close>, the accumulator
  and the frame counter at 0, no call made yet, every draw \<open>1/2\<close> and the correctly
  rounding \<^verbatim>\<open>Math.exp\<close>.
\<close>

definition demo_state :: "rat \<Rightarrow> app" where
  "demo_state f =
     \<lparr>size_state = 1, gridData = [1], stats = [], isRunning = True, gridRef = [1],
      runningRef = True, tempRef = 1, sizeRef = 1, speedRef = f, accumulatorRef = 0,
      frameCountRef = 0, rng = sconst (1 / 2), mathExp = exp_rounded, calls = []\<rparr>"

section \<open>Invariants of the traversal\<close>

text \<open>
  The predicates of the proofs about \<open>flood\<close> and the two scanning loops. \<open>marked\<close>
  counts the visited cells. \<open>fuel\<close> decreases with every iteration of the \<^verbatim>\<open>while\<close>
  loop: a pop takes one from the frontier, and a push adds one to it but marks a cell
  that was not marked. \<open>advances\<close> relates a state to a later one: the grid and the
  recorded sizes are the same, no mark is taken back, and the marks gained are the
  cells counted or still on the frontier.
\<close>

definition marked :: "bool list \<Rightarrow> nat" where
  "marked v = length (filter (\<lambda>b. b) v)"

definition fuel :: "scan \<Rightarrow> nat" where
  "fuel s = 2 * (length (visited s) - marked (visited s)) + length (queue s)"

definition flood_inv :: "nat \<Rightarrow> scan \<Rightarrow> bool" where
  "flood_inv N s = (length (visited s) = N * N \<and> (\<forall>q\<in>set (queue s). q < N * N))"

definition advances :: "scan \<Rightarrow> scan \<Rightarrow> bool" where
  "advances s s' =
     (lattice s' = lattice s \<and> clusterSizes s' = clusterSizes s \<and>
      length (visited s') = length (visited s) \<and>
      (\<forall>i. is_visited (visited s) i \<longrightarrow> is_visited (visited s') i) \<and>
      marked (visited s') + length (queue s) + currentSize s =
        marked (visited s) + length (queue s') + currentSize s')"

definition scan_inv :: "grid \<Rightarrow> nat \<Rightarrow> nat \<Rightarrow> scan \<Rightarrow> bool" where
  "scan_inv g N k s =
     (lattice s = g \<and> length (visited s) = N * N \<and>
      sum_list (clusterSizes s) = marked (visited s) \<and>
      (\<forall>i<k. is_visited (visited s) i))"

section \<open>Reachable lattices\<close>

text \<open>
  The grids that \<^verbatim>\<open>createGrid\<close> followed by any number of sweeps can produce, for any
  draws of the random source, any \<^verbatim>\<open>Math.exp\<close> and any temperatures.
\<close>

inductive reachable :: "nat \<Rightarrow> grid \<Rightarrow> bool" where
  created: "reachable N (fst (createGrid N r))"
| swept: "reachable N g \<Longrightarrow> reachable N (fst (performMCS E g N T r))"

section \<open>Arithmetic of the torus\<close>

lemma getIdx_bound: "y < N \<Longrightarrow> x < N \<Longrightarrow> y * N + x < N * (N::nat)"
proof -
  assume a: "y < N" "x < N"
  then have "y * N + x < y * N + N" by simp
  also have "\<dots> = (y + 1) * N" by simp
  also have "\<dots> \<le> N * N" using a by (intro mult_le_mono1) simp
  finally show ?thesis .
qed

lemma wrap_inc_less: "0 < N \<Longrightarrow> wrap_inc N x < N"
  by (simp add: wrap_inc_def)

lemma wrap_dec_less: "0 < N \<Longrightarrow> wrap_dec N x < N"
proof -
  assume "0 < N"
  then have "(int x - 1 + int N) mod int N < int N" by simp
  moreover have "0 \<le> (int x - 1 + int N) mod int N" using \<open>0 < N\<close> by simp
  ultimately show ?thesis unfolding wrap_dec_def by linarith
qed

lemma idx_coords: "idx < N * N \<Longrightarrow> idx mod N < N \<and> idx div N < (N::nat)"
  by (cases "N = 0") (simp_all add: less_mult_imp_div_less)

lemma lattice_cell:
  "is_lattice g N \<Longrightarrow> i < N * N \<Longrightarrow> cell g i = Some 1 \<or> cell g i = Some (- 1)"
  by (auto simp: is_lattice_def cell_def list_all_length)

section \<open>The energy delta\<close>

lemma pm_sum4:
  fixes a b c d s :: int
  assumes "a = 1 \<or> a = -1" "b = 1 \<or> b = -1" "c = 1 \<or> c = -1" "d = 1 \<or> d = -1" "s = 1 \<or> s = -1"
  shows "2 * s * (a + b + c + d) \<in> {- 8, - 4, 0, 4, 8}"
  using assms by auto

lemma energyDelta_lattice:
  assumes "is_lattice g N" "idx < N * N"
  shows "\<exists>d. energyDelta g N idx = Some d \<and> d \<in> {- 8, - 4, 0, 4, 8}"
proof -
  from assms(2) have N: "0 < N" by (cases N) auto
  from idx_coords[OF assms(2)] have xy: "idx mod N < N" "idx div N < N" by auto
  let ?x = "idx mod N" and ?y = "idx div N"
  have b: "?y * N + wrap_dec N ?x < N * N" "?y * N + wrap_inc N ?x < N * N"
       "wrap_dec N ?y * N + ?x < N * N" "wrap_inc N ?y * N + ?x < N * N"
    using xy N by (simp_all add: getIdx_bound wrap_dec_less wrap_inc_less)
  obtain a where a: "cell g (?y * N + wrap_dec N ?x) = Some a" "a = 1 \<or> a = -1"
    using lattice_cell[OF assms(1) b(1)] by auto
  obtain b' where b': "cell g (?y * N + wrap_inc N ?x) = Some b'" "b' = 1 \<or> b' = -1"
    using lattice_cell[OF assms(1) b(2)] by auto
  obtain c where c: "cell g (wrap_dec N ?y * N + ?x) = Some c" "c = 1 \<or> c = -1"
    using lattice_cell[OF assms(1) b(3)] by auto
  obtain d where d: "cell g (wrap_inc N ?y * N + ?x) = Some d" "d = 1 \<or> d = -1"
    using lattice_cell[OF assms(1) b(4)] by auto
  obtain s where s: "cell g idx = Some s" "s = 1 \<or> s = -1"
    using lattice_cell[OF assms(1) assms(2)] by auto
  have "energyDelta g N idx = Some (2 * s * (a + b' + c + d))"
    by (simp add: energyDelta_def neighborSum_def Let_def num_add_def num_mul_def a b' c d s)
  with pm_sum4[OF a(2) b'(2) c(2) d(2) s(2)] show ?thesis by blast
qed

lemma dom_expTable: "dom (expTable E T) = {4, 8}"
  by (auto simp: expTable_def split: if_splits)

lemma lattice_up: "is_lattice [1, 1, 1, 1] 2"
  by (simp add: is_lattice_def)

lemma dE_up:
  "energyDelta [1, 1, 1, 1] 2 0 = Some 8" "energyDelta [1, 1, 1, 1] 2 1 = Some 8"
  "energyDelta [1, 1, 1, 1] 2 2 = Some 8" "energyDelta [1, 1, 1, 1] 2 3 = Some 8"
  by (simp_all add: energyDelta_def neighborSum_def cell_def num_add_def num_mul_def
      wrap_inc_def wrap_dec_def Let_def)

lemma nsum_up:
  "neighborSum [1, 1, 1, 1] 2 0 = Some 4" "neighborSum [1, 1, 1, 1] 2 1 = Some 4"
  "neighborSum [1, 1, 1, 1] 2 2 = Some 4" "neighborSum [1, 1, 1, 1] 2 3 = Some 4"
  by (simp_all add: neighborSum_def cell_def num_add_def
      wrap_inc_def wrap_dec_def Let_def)

text \<open>
  Claim C5. At every site of a lattice of spins the energy delta is one of
  \<open>-8, -4, 0, 4, 8\<close>; a positive one is 4 or 8, a key of the acceptance table.
\<close>

theorem energyDelta_domain:
  assumes "is_lattice g N" and "idx < N * N"
  shows "\<exists>dE. energyDelta g N idx = Some dE \<and> dE \<in> {- 8, - 4, 0, 4, 8} \<and>
           (0 < dE \<longrightarrow> (dE = 4 \<or> dE = 8) \<and> dE \<in> dom (expTable E T))"
proof -
  from energyDelta_lattice[OF assms] obtain d where
    d: "energyDelta g N idx = Some d" "d \<in> {- 8, - 4, 0, 4, 8}" by blast
  then have "0 < d \<longrightarrow> (d = 4 \<or> d = 8) \<and> d \<in> dom (expTable E T)"
    by (auto simp: dom_expTable)
  with d show ?thesis by blast
qed

text \<open>
  Claim C5 at the site 3 of the all-up lattice of side 2.
\<close>

theorem energyDelta_domain_witness:
  "is_lattice [1, 1, 1, 1] 2 \<and> (3::nat) < 2 * 2 \<and>
   energyDelta [1, 1, 1, 1] 2 3 = Some 8 \<and> 8 \<in> dom (expTable exp_rounded 1)"
proof -
  have h2: "(3::nat) < 2 * 2" by simp
  from energyDelta_domain[OF lattice_up h2, of exp_rounded 1] obtain dE where
    "energyDelta [1, 1, 1, 1] 2 3 = Some dE" "0 < dE \<longrightarrow> dE \<in> dom (expTable exp_rounded 1)" by blast
  with dE_up(4) have "8 \<in> dom (expTable exp_rounded 1)" by simp
  with lattice_up h2 dE_up(4) show ?thesis by simp
qed

section \<open>The lattice invariant\<close>

lemma lattice_update:
  assumes "is_lattice g N" "v = 1 \<or> v = - 1"
  shows "is_lattice (g[i := v]) N"
proof -
  have "set (g[i := v]) \<subseteq> insert v (set g)" by (rule set_update_subset_insert)
  with assms show ?thesis
    by (auto simp: is_lattice_def list_all_iff)
qed

lemma flip_cell_lattice:
  assumes "is_lattice g N"
  shows "is_lattice (g[idx := to_int8 (num_neg (cell g idx))]) N"
proof (cases "idx < N * N")
  case True
  from lattice_cell[OF assms True] have "to_int8 (num_neg (cell g idx)) = 1 \<or> to_int8 (num_neg (cell g idx)) = - 1"
    by (auto simp: to_int8_def num_neg_def)
  with assms show ?thesis by (rule lattice_update)
next
  case False
  with assms have "g[idx := to_int8 (num_neg (cell g idx))] = g"
    by (simp add: is_lattice_def list_update_beyond)
  with assms show ?thesis by simp
qed

lemma flip_attempt_lattice:
  "is_lattice (fst st) N \<Longrightarrow> is_lattice (fst (flip_attempt tbl N st)) N"
  by (simp add: flip_attempt_def Let_def flip_cell_lattice)

lemma attempts_lattice:
  "is_lattice (fst st) N \<Longrightarrow> is_lattice (fst (attempts tbl N k st)) N"
  by (induction k arbitrary: st) (simp_all add: flip_attempt_lattice)

lemma performMCS_lattice:
  "is_lattice g N \<Longrightarrow> is_lattice (fst (performMCS E g N T r)) N"
  by (simp add: performMCS_def attempts_lattice)

lemma create_loop_length: "length (fst (create_loop i g r)) = length g"
  by (induction i g r rule: create_loop.induct) (subst create_loop.simps, simp)

lemma create_loop_cells:
  "\<forall>j<i. j < length g \<longrightarrow> g ! j = 1 \<or> g ! j = - 1 \<Longrightarrow>
   list_all (\<lambda>c. c = 1 \<or> c = - 1) (fst (create_loop i g r))"
proof (induction i g r rule: create_loop.induct)
  case (1 i g r)
  show ?case
  proof (cases "i < length g")
    case True
    let ?g = "g[i := (if 1 / 2 < shd r then 1 else - 1)]"
    have "\<forall>j<i + 1. j < length ?g \<longrightarrow> ?g ! j = 1 \<or> ?g ! j = - 1"
      using "1.prems" by (auto simp: nth_list_update less_Suc_eq)
    from "1.IH"[OF True this] True show ?thesis
      by (subst create_loop.simps) simp
  next
    case False
    with "1.prems" show ?thesis
      by (subst create_loop.simps) (auto simp: list_all_length)
  qed
qed

lemma createGrid_lattice: "is_lattice (fst (createGrid n r)) n"
  by (simp add: createGrid_def is_lattice_def create_loop_length create_loop_cells)

text \<open>
  Claim C4. Every reachable grid has \<open>N\<^sup>2\<close> cells, each of them \<open>1\<close> or \<open>-1\<close>.
\<close>

theorem reachable_lattice:
  "reachable N g \<Longrightarrow> length g = N * N \<and> list_all (\<lambda>c. c = 1 \<or> c = - 1) g"
proof (induction rule: reachable.induct)
  case (created N r)
  from createGrid_lattice[of N r] show ?case by (simp add: is_lattice_def)
next
  case (swept N g E T r)
  then have "is_lattice g N" by (simp add: is_lattice_def)
  from performMCS_lattice[OF this, of E T r] show ?case by (simp add: is_lattice_def)
qed

text \<open>
  Claim C4 at a grid created from the constant draw \<open>3/4\<close> and swept once.
\<close>

theorem reachable_lattice_witness:
  "reachable 2 (fst (performMCS exp_rounded (fst (createGrid 2 (sconst (3 / 4)))) 2 1 (sconst (1 / 2)))) \<and>
   length (fst (performMCS exp_rounded (fst (createGrid 2 (sconst (3 / 4)))) 2 1 (sconst (1 / 2)))) = 2 * 2 \<and>
   list_all (\<lambda>c. c = 1 \<or> c = - 1)
     (fst (performMCS exp_rounded (fst (createGrid 2 (sconst (3 / 4)))) 2 1 (sconst (1 / 2))))"
proof -
  have "reachable 2 (fst (createGrid 2 (sconst (3 / 4))))" by (rule created)
  then have r: "reachable 2 (fst (performMCS exp_rounded (fst (createGrid 2 (sconst (3 / 4)))) 2 1 (sconst (1 / 2))))"
    by (rule swept)
  from r reachable_lattice[OF r] show ?thesis by simp
qed

section \<open>Rounding to double precision\<close>

text \<open>
  What \<open>binary64\<close> returns for \<open>x \<noteq> 0\<close>: with \<open>e\<close> the binary exponent of \<open>x\<close>, an
  integer significand of magnitude between \<open>2\<^sup>5\<^sup>2\<close> and \<open>2\<^sup>5\<^sup>3\<close> times \<open>2\<^sup>e\<^sup>-\<^sup>5\<^sup>2\<close>, at
  most half a unit in the last place away from \<open>x\<close>.
\<close>

lemma round_half_even_error: "\<bar>of_int (round_half_even m) - m\<bar> \<le> 1 / 2"
proof -
  have "0 \<le> m - of_int \<lfloor>m\<rfloor>" "m - of_int \<lfloor>m\<rfloor> < 1" by linarith+
  then show ?thesis by (auto simp: round_half_even_def Let_def)
qed

lemma round_half_even_mono_int: "of_int k \<le> m \<Longrightarrow> k \<le> round_half_even m"
proof -
  assume "of_int k \<le> m"
  then have "k \<le> \<lfloor>m\<rfloor>" by (simp add: le_floor_iff)
  then show ?thesis by (auto simp: round_half_even_def Let_def)
qed

lemma round_half_even_le_int: "m \<le> of_int k \<Longrightarrow> round_half_even m \<le> k"
proof -
  assume a: "m \<le> of_int k"
  then have fl: "\<lfloor>m\<rfloor> \<le> k" by (simp add: floor_le_iff)
  show ?thesis
  proof (cases "\<lfloor>m\<rfloor> = k")
    case True
    with a have "m - of_int \<lfloor>m\<rfloor> \<le> 0" by simp
    moreover have "0 \<le> m - of_int \<lfloor>m\<rfloor>" by linarith
    ultimately have "m - of_int \<lfloor>m\<rfloor> = 0" by linarith
    with True show ?thesis by (simp add: round_half_even_def Let_def)
  next
    case False
    with fl have "\<lfloor>m\<rfloor> + 1 \<le> k" by linarith
    then show ?thesis by (auto simp: round_half_even_def Let_def)
  qed
qed

lemma pow2_int: "0 \<le> n \<Longrightarrow> (2::rat) powi n = 2 ^ nat n"
  by (simp add: power_int_def)

lemma ilog2_bounds:
  assumes "x \<noteq> 0"
  shows "2 powi ilog2 x \<le> \<bar>x\<bar> \<and> \<bar>x\<bar> < 2 powi (ilog2 x + 1)"
proof -
  obtain a b where q: "quotient_of \<bar>x\<bar> = (a, b)" by (cases "quotient_of \<bar>x\<bar>")
  from quotient_of_denom_pos[OF q] have b: "0 < b" .
  from quotient_of_div[OF q] have x: "\<bar>x\<bar> = of_int a / of_int b" .
  from assms have "0 < \<bar>x\<bar>" by simp
  with x b have a: "0 < a" by (simp add: zero_less_divide_iff)
  let ?la = "bitlen a" and ?lb = "bitlen b"
  from bitlen_bounds[OF a] have ba: "2 ^ nat (?la - 1) \<le> a" "a < 2 ^ nat ?la" by auto
  from bitlen_bounds[OF b] have bb: "2 ^ nat (?lb - 1) \<le> b" "b < 2 ^ nat ?lb" by auto
  have la: "1 \<le> ?la" using a by (simp add: bitlen_alt_def)
  have lb: "1 \<le> ?lb" using b by (simp add: bitlen_alt_def)
  have ra: "(2::rat) powi (?la - 1) \<le> of_int a" "of_int a < (2::rat) powi ?la"
  proof -
    have "(of_int (2 ^ nat (?la - 1)) :: rat) \<le> of_int a" using ba(1) by (simp only: of_int_le_iff)
    then show "(2::rat) powi (?la - 1) \<le> of_int a" using la by (simp add: pow2_int)
    have "(of_int a :: rat) < of_int (2 ^ nat ?la)" using ba(2) by (simp only: of_int_less_iff)
    then show "of_int a < (2::rat) powi ?la" using la by (simp add: pow2_int)
  qed
  have rb: "(2::rat) powi (?lb - 1) \<le> of_int b" "of_int b < (2::rat) powi ?lb"
  proof -
    have "(of_int (2 ^ nat (?lb - 1)) :: rat) \<le> of_int b" using bb(1) by (simp only: of_int_le_iff)
    then show "(2::rat) powi (?lb - 1) \<le> of_int b" using lb by (simp add: pow2_int)
    have "(of_int b :: rat) < of_int (2 ^ nat ?lb)" using bb(2) by (simp only: of_int_less_iff)
    then show "of_int b < (2::rat) powi ?lb" using lb by (simp add: pow2_int)
  qed
  have bpos: "(0::rat) < of_int b" using b by simp
  have up: "\<bar>x\<bar> < 2 powi (?la - ?lb + 1)"
  proof -
    have "of_int a < (2::rat) powi (?la - ?lb + 1) * 2 powi (?lb - 1)"
      using ra(2) by (simp add: power_int_add[symmetric])
    also have "\<dots> \<le> 2 powi (?la - ?lb + 1) * of_int b"
      using rb(1) by (intro mult_left_mono) simp_all
    finally show ?thesis using bpos by (simp add: x pos_divide_less_eq)
  qed
  have low: "2 powi (?la - ?lb - 1) < \<bar>x\<bar>"
  proof -
    have "(2::rat) powi (?la - ?lb - 1) * of_int b < 2 powi (?la - ?lb - 1) * 2 powi ?lb"
      using rb(2) by (intro mult_strict_left_mono) simp_all
    also have "\<dots> = 2 powi (?la - 1)" by (simp add: power_int_add[symmetric])
    also have "\<dots> \<le> of_int a" by (rule ra(1))
    finally show ?thesis using bpos by (simp add: x pos_less_divide_eq)
  qed
  show ?thesis
  proof (cases "2 powi (?la - ?lb) \<le> \<bar>x\<bar>")
    case True
    then have "ilog2 x = ?la - ?lb" by (simp add: ilog2_def Let_def q)
    with True up show ?thesis by simp
  next
    case False
    then have "ilog2 x = ?la - ?lb - 1" by (simp add: ilog2_def Let_def q)
    with False low show ?thesis by simp
  qed
qed

lemma binary64_significand:
  assumes "x \<noteq> 0"
  shows "binary64 x = of_int (round_half_even (x * 2 powi (52 - ilog2 x))) * 2 powi (ilog2 x - 52) \<and>
         2 ^ 52 \<le> \<bar>round_half_even (x * 2 powi (52 - ilog2 x))\<bar> \<and>
         \<bar>round_half_even (x * 2 powi (52 - ilog2 x))\<bar> \<le> 2 ^ 53"
proof -
  let ?e = "ilog2 x"
  let ?q = "(2::rat) powi (52 - ?e)"
  let ?r = "round_half_even (x * ?q)"
  have qpos: "0 < ?q" by simp
  have inv: "1 / ?q = 2 powi (?e - 52)"
    by (simp add: power_int_diff power_int_minus field_simps)
  have eq: "binary64 x = of_int ?r * 2 powi (?e - 52)"
    using assms inv by (simp add: binary64_def Let_def field_simps)
  from ilog2_bounds[OF assms] have b: "2 powi ?e \<le> \<bar>x\<bar>" "\<bar>x\<bar> < 2 powi (?e + 1)" by auto
  have lo: "2 ^ 52 \<le> \<bar>x\<bar> * ?q"
  proof -
    have "(2::rat) powi ?e * ?q \<le> \<bar>x\<bar> * ?q" using b(1) qpos by (intro mult_right_mono) simp_all
    moreover have "(2::rat) powi ?e * ?q = 2 ^ 52" by (simp add: power_int_add[symmetric])
    ultimately show ?thesis by simp
  qed
  have hi: "\<bar>x\<bar> * ?q \<le> 2 ^ 53"
  proof -
    have "\<bar>x\<bar> * ?q \<le> (2::rat) powi (?e + 1) * ?q" using b(2) qpos by (intro mult_right_mono) simp_all
    moreover have "(2::rat) powi (?e + 1) * ?q = 2 ^ 53" by (simp add: power_int_add[symmetric])
    ultimately show ?thesis by simp
  qed
  have "2 ^ 52 \<le> \<bar>?r\<bar> \<and> \<bar>?r\<bar> \<le> 2 ^ 53"
  proof (cases "0 < x")
    case True
    with lo hi have "of_int (2 ^ 52) \<le> x * ?q" "x * ?q \<le> of_int (2 ^ 53)" by simp_all
    from round_half_even_mono_int[OF this(1)] round_half_even_le_int[OF this(2)]
    show ?thesis by simp
  next
    case False
    with assms have "x < 0" by simp
    with lo hi have "x * ?q \<le> of_int (- (2 ^ 52))" "of_int (- (2 ^ 53)) \<le> x * ?q"
      by (simp_all add: abs_if)
    from round_half_even_le_int[OF this(1)] round_half_even_mono_int[OF this(2)]
    show ?thesis by simp
  qed
  with eq show ?thesis by simp
qed

lemma binary64_error:
  assumes "x \<noteq> 0"
  shows "\<bar>binary64 x - x\<bar> \<le> 2 powi (ilog2 x - 53)"
proof -
  let ?e = "ilog2 x"
  let ?q = "(2::rat) powi (52 - ?e)"
  let ?r = "round_half_even (x * ?q)"
  have qpos: "0 < ?q" by simp
  have "binary64 x - x = (of_int ?r - x * ?q) / ?q"
    using assms qpos by (simp add: binary64_def Let_def field_simps)
  then have "\<bar>binary64 x - x\<bar> = \<bar>of_int ?r - x * ?q\<bar> / ?q"
    using qpos by (simp add: abs_divide)
  also have "\<dots> \<le> (1 / 2) / ?q"
    using round_half_even_error[of "x * ?q"] qpos by (intro divide_right_mono) simp_all
  also have "\<dots> = 2 powi (?e - 53)"
    by (simp add: power_int_diff power_int_minus field_simps)
  finally show ?thesis .
qed

lemma binary64_nonneg: "0 \<le> x \<Longrightarrow> 0 \<le> binary64 x"
proof (cases "x = 0")
  case True
  then show ?thesis by (simp add: binary64_def)
next
  case False
  assume "0 \<le> x"
  with False have "0 < x" by simp
  then have "of_int 0 \<le> x * 2 powi (52 - ilog2 x)" by simp
  from round_half_even_mono_int[OF this]
  have "0 \<le> round_half_even (x * 2 powi (52 - ilog2 x))" .
  with False show ?thesis by (simp add: binary64_def Let_def)
qed

lemma binary64_ge_one: "1 \<le> x \<Longrightarrow> 1 \<le> binary64 x"
proof -
  assume x: "1 \<le> x"
  then have nz: "x \<noteq> 0" by auto
  let ?e = "ilog2 x"
  let ?q = "(2::rat) powi (52 - ?e)"
  from ilog2_bounds[OF nz] x have b: "2 powi ?e \<le> x" "1 < (2::rat) powi (?e + 1)" by auto
  have e: "0 \<le> ?e"
  proof (rule ccontr)
    assume "\<not> 0 \<le> ?e"
    then have "?e + 1 \<le> 0" by simp
    then have "(2::rat) powi (?e + 1) \<le> 2 powi 0" by (intro power_int_increasing) simp_all
    with b(2) show False by simp
  qed
  have "(2::rat) powi ?e * ?q \<le> x * ?q" using b(1) by (intro mult_right_mono) simp_all
  moreover have "(2::rat) powi ?e * ?q = of_int (2 ^ 52)" by (simp add: power_int_add[symmetric])
  ultimately have "of_int (2 ^ 52) \<le> x * ?q" by simp
  from round_half_even_mono_int[OF this]
  have "(of_int (2 ^ 52) :: rat) \<le> of_int (round_half_even (x * ?q))" by (simp only: of_int_le_iff)
  then have "(2::rat) ^ 52 / ?q \<le> of_int (round_half_even (x * ?q)) / ?q"
    by (intro divide_right_mono) simp_all
  moreover have "(2::rat) ^ 52 / ?q = 2 powi ?e"
    by (simp add: power_int_diff field_simps)
  moreover have "(1::rat) \<le> 2 powi ?e" using e by (simp add: pow2_int)
  ultimately have "1 \<le> of_int (round_half_even (x * ?q)) / ?q" by linarith
  moreover have "binary64 x = of_int (round_half_even (x * ?q)) / ?q"
    using nz by (simp add: binary64_def Let_def)
  ultimately show ?thesis by simp
qed

lemma one_double: "binary64 1 = 1"
  by code_simp

lemma tenth_double: "binary64 (1 / 10) = 3602879701896397 / 36028797018963968"
  by code_simp

lemma round_half_even_of_int: "round_half_even (of_int k) = k"
  by (simp add: round_half_even_def Let_def)


lemma ilog2_less:
  assumes "x \<noteq> 0" "\<bar>x\<bar> < 2 powi k"
  shows "ilog2 x < k"
proof (rule ccontr)
  assume "\<not> ilog2 x < k"
  then have "k \<le> ilog2 x" by simp
  then have "(2::rat) powi k \<le> 2 powi ilog2 x" by (intro power_int_increasing) simp_all
  with ilog2_bounds[OF assms(1)] assms(2) show False by linarith
qed

lemma representable_scaled:
  assumes "\<bar>j\<bar> < 2 ^ 53"
  shows "representable (of_int j * 2 powi p)"
proof (cases "j = 0")
  case True
  then show ?thesis by (simp add: representable_def binary64_def)
next
  case False
  let ?x = "of_int j * (2::rat) powi p"
  have nz: "?x \<noteq> 0" using False by simp
  have "\<bar>?x\<bar> = of_int \<bar>j\<bar> * 2 powi p" by (simp add: abs_mult)
  also have "\<dots> < of_int (2 ^ 53) * 2 powi p"
    using assms by (intro mult_strict_right_mono) (simp_all only: of_int_less_iff, simp)
  also have "\<dots> = 2 powi (53 + p)" by (simp add: power_int_add)
  finally have "ilog2 ?x < 53 + p" by (rule ilog2_less[OF nz])
  then have k: "0 \<le> p + 52 - ilog2 ?x" by simp
  let ?k = "p + 52 - ilog2 ?x"
  let ?q = "(2::rat) powi (52 - ilog2 ?x)"
  have "?x * ?q = of_int j * 2 powi ?k" by (simp add: power_int_add[symmetric] algebra_simps)
  also have "\<dots> = of_int (j * 2 ^ nat ?k)" using k by (simp add: pow2_int)
  finally have xq: "?x * ?q = of_int (j * 2 ^ nat ?k)" .
  have "binary64 ?x = of_int (round_half_even (?x * ?q)) / ?q"
    using nz by (simp add: binary64_def Let_def)
  also have "\<dots> = (?x * ?q) / ?q" by (simp only: xq round_half_even_of_int)
  also have "\<dots> = ?x" by simp
  finally show ?thesis by (simp add: representable_def)
qed

lemma binary64_rel_error: "\<bar>binary64 x - x\<bar> \<le> \<bar>x\<bar> / 2 ^ 53"
proof (cases "x = 0")
  case True
  then show ?thesis by (simp add: binary64_def)
next
  case False
  have "\<bar>binary64 x - x\<bar> \<le> 2 powi (ilog2 x - 53)" by (rule binary64_error[OF False])
  also have "\<dots> = 2 powi ilog2 x / 2 ^ 53" by (simp add: power_int_diff)
  also have "\<dots> \<le> \<bar>x\<bar> / 2 ^ 53"
    using ilog2_bounds[OF False] by (intro divide_right_mono) simp_all
  finally show ?thesis .
qed


lemma representable_scaled_le:
  assumes "\<bar>j\<bar> \<le> 2 ^ 53"
  shows "representable (of_int j * 2 powi p)"
proof (cases "\<bar>j\<bar> = 2 ^ 53")
  case False
  with assms have "\<bar>j\<bar> < 2 ^ 53" by simp
  then show ?thesis by (rule representable_scaled)
next
  case True
  then have "j = 2 ^ 53 \<or> j = - (2 ^ 53)" by linarith
  then have "of_int j * (2::rat) powi p = of_int (sgn j) * 2 powi (53 + p)"
    by (auto simp: power_int_add)
  moreover have "\<bar>sgn j\<bar> < 2 ^ 53" by (simp add: sgn_if)
  ultimately show ?thesis using representable_scaled[of "sgn j" "53 + p"] by simp
qed

lemma frac_of_int_div:
  fixes m s :: int
  assumes "0 < s"
  shows "(of_int m / of_int s :: rat) - of_int (m div s) = of_int (m mod s) / of_int s"
proof -
  have "(of_int m :: rat) = of_int ((m div s) * s + m mod s)" by simp
  also have "\<dots> = of_int (m div s) * of_int s + of_int (m mod s)" by (simp only: of_int_add of_int_mult)
  finally have "(of_int m :: rat) / of_int s =
      (of_int (m div s) * of_int s + of_int (m mod s)) / of_int s" by simp
  also have "\<dots> = of_int (m div s) + of_int (m mod s) / of_int s"
    using assms by (simp add: add_divide_distrib)
  finally show ?thesis by simp
qed

lemma binary64_frac_representable:
  assumes "0 < x"
  shows "representable (binary64 x - of_int \<lfloor>binary64 x\<rfloor>)"
proof -
  let ?p = "ilog2 x - 52"
  let ?m = "round_half_even (x * 2 powi (52 - ilog2 x))"
  from assms have nz: "x \<noteq> 0" by simp
  from binary64_significand[OF nz] have y: "binary64 x = of_int ?m * 2 powi ?p"
    and m53: "\<bar>?m\<bar> \<le> 2 ^ 53" by simp_all
  have "of_int 0 \<le> x * 2 powi (52 - ilog2 x)" using assms by simp
  from round_half_even_mono_int[OF this] have m0: "0 \<le> ?m" .
  show ?thesis
  proof (cases "0 \<le> ?p")
    case True
    then have "binary64 x = of_int (?m * 2 ^ nat ?p)" by (simp add: y pow2_int)
    then have "binary64 x - of_int \<lfloor>binary64 x\<rfloor> = 0" by simp
    then show ?thesis by (simp add: representable_def binary64_def)
  next
    case False
    define s :: int where "s = 2 ^ nat (- ?p)"
    have spos: "0 < s" by (simp add: s_def)
    have "(2::rat) powi ?p = 1 / of_int s"
      using False by (simp add: s_def power_int_def field_simps)
    then have ys: "binary64 x = of_int ?m / of_int s" and ps: "(2::rat) powi ?p = 1 / of_int s"
      by (simp_all add: y)
    have fl: "\<lfloor>binary64 x\<rfloor> = ?m div s" by (simp only: ys floor_divide_of_int_eq)
    have "binary64 x - of_int \<lfloor>binary64 x\<rfloor> = of_int (?m mod s) / of_int s"
      unfolding fl unfolding ys by (rule frac_of_int_div[OF spos])
    then have eq: "binary64 x - of_int \<lfloor>binary64 x\<rfloor> = of_int (?m mod s) * 2 powi ?p"
      by (simp add: ps)
    have "0 \<le> ?m mod s" using spos by simp
    moreover have "?m mod s \<le> ?m" using m0 spos by (simp add: zmod_le_nonneg_dividend)
    ultimately have "\<bar>?m mod s\<bar> \<le> 2 ^ 53" using m53 m0 by linarith
    from representable_scaled_le[OF this, of ?p] eq show ?thesis by simp
  qed
qed





lemma round_half_even_real_ge: "of_int k \<le> m \<Longrightarrow> k \<le> round_half_even_real m"
proof -
  assume "of_int k \<le> m"
  then have "k \<le> \<lfloor>m\<rfloor>" by (simp add: le_floor_iff)
  then show ?thesis by (auto simp: round_half_even_real_def Let_def)
qed

lemma round_half_even_real_le: "m \<le> of_int k \<Longrightarrow> round_half_even_real m \<le> k"
proof -
  assume a: "m \<le> of_int k"
  then have fl: "\<lfloor>m\<rfloor> \<le> k" by (simp add: floor_le_iff)
  show ?thesis
  proof (cases "\<lfloor>m\<rfloor> = k")
    case True
    with a have "m - of_int \<lfloor>m\<rfloor> \<le> 0" by simp
    moreover have "0 \<le> m - of_int \<lfloor>m\<rfloor>" by linarith
    ultimately have "m - of_int \<lfloor>m\<rfloor> = 0" by linarith
    with True show ?thesis by (simp add: round_half_even_real_def Let_def)
  next
    case False
    with fl have "\<lfloor>m\<rfloor> + 1 \<le> k" by linarith
    then show ?thesis by (auto simp: round_half_even_real_def Let_def)
  qed
qed

lemma log2_less: "0 < y \<Longrightarrow> y < 2 powi k \<Longrightarrow> \<lfloor>log 2 y\<rfloor> < k"
proof -
  assume a: "0 < (y::real)" "y < 2 powi k"
  have "(2::real) powi k = 2 powr (of_int k)" by (simp add: powr_real_of_int')
  with a have "log 2 y < of_int k" by (simp add: log_less_iff)
  then show ?thesis by (simp add: floor_less_iff)
qed


lemma round_double_le_half:
  assumes "0 < y" "y \<le> 1 / 2"
  shows "\<exists>v. round_double y = Num v \<and> 0 \<le> v \<and> v \<le> 1 / 2"
proof -
  define e where "e = max \<lfloor>log 2 \<bar>y\<bar>\<rfloor> (- 1022)"
  have "y < 2 powi 0" using assms(2) by simp
  from log2_less[OF assms(1) this] have fl: "\<lfloor>log 2 y\<rfloor> < 0" .
  have ay: "\<bar>y\<bar> = y" using assms(1) by simp
  have e1: "e \<le> - 1" "- 1022 \<le> e"
    unfolding e_def ay using fl by linarith+
  let ?q = "(2::real) powi (52 - e)"
  let ?m = "round_half_even_real (y * ?q)"
  define v :: rat where "v = of_int ?m * 2 powi (e - 52)"
  have k: "0 \<le> 51 - e" using e1 by simp
  have "(1 / 2) * ?q = 2 powi (51 - e)" by (simp add: power_int_diff)
  also have "\<dots> = of_int (2 ^ nat (51 - e))" using k by (simp add: power_int_def)
  finally have half: "(1 / 2) * ?q = of_int (2 ^ nat (51 - e))" .
  have "y * ?q \<le> (1 / 2) * ?q" using assms(2) by (intro mult_right_mono) simp_all
  then have "y * ?q \<le> of_int (2 ^ nat (51 - e))" by (simp only: half)
  then have mle: "?m \<le> 2 ^ nat (51 - e)" by (rule round_half_even_real_le)
  have "of_int 0 \<le> y * ?q" using assms(1) by simp
  then have m0: "0 \<le> ?m" by (rule round_half_even_real_ge)
  have v0: "0 \<le> v" using m0 by (simp add: v_def)
  have "(of_int ?m :: rat) \<le> of_int (2 ^ nat (51 - e))" using mle by (simp only: of_int_le_iff)
  then have "v \<le> of_int (2 ^ nat (51 - e)) * 2 powi (e - 52)"
    unfolding v_def by (intro mult_right_mono) simp_all
  also have "of_int (2 ^ nat (51 - e)) * (2::rat) powi (e - 52) = 2 powi (51 - e) * 2 powi (e - 52)"
    using k by (simp add: power_int_def)
  also have "\<dots> = 2 powi (- 1)" by (simp add: power_int_add[symmetric])
  finally have vh: "v \<le> 1 / 2" by (simp add: power_int_minus)
  have "\<bar>v\<bar> < overflow_threshold"
  proof -
    have "\<bar>v\<bar> \<le> 1 / 2" using v0 vh by simp
    also have "\<dots> < (1::rat)" by simp
    also have "\<dots> \<le> 2 ^ 1024" by (rule one_le_power) simp
    finally show ?thesis by (simp only: overflow_threshold_def)
  qed
  then have nov: "\<not> overflow_threshold \<le> \<bar>v\<bar>" by simp
  have "round_double y = Num v"
    unfolding round_double_def Let_def e_def[symmetric] v_def[symmetric]
    using assms(1) nov by simp
  with v0 vh show ?thesis by blast
qed


section \<open>The Metropolis rule\<close>




text \<open>
  With the correctly rounding \<^verbatim>\<open>Math.exp\<close>, at a temperature other than 0 whose
  quotient stays in the finite range, the table entry is the exponential of the
  rounded quotient, rounded.
\<close>

lemma table_entry_rounded:
  assumes "T \<noteq> 0" "\<not> overflow_threshold \<le> \<bar>binary64 (- of_int dE / T)\<bar>"
  shows "exp_rounded (neg_div dE T) = round_double (exp (real_of_rat (binary64 (- of_int dE / T))))"
  using assms by (simp add: neg_div_def Let_def exp_rounded_def)










section \<open>The domain analysis\<close>

lemma marked_le: "marked v \<le> length v"
  by (simp add: marked_def)

lemma marked_update:
  "i < length v \<Longrightarrow> \<not> v ! i \<Longrightarrow> marked (v[i := True]) = marked v + 1"
proof (induction v arbitrary: i)
  case Nil
  then show ?case by simp
next
  case (Cons b v)
  then show ?case by (cases i) (auto simp: marked_def)
qed

lemma marked_less: "i < length v \<Longrightarrow> \<not> v ! i \<Longrightarrow> marked v < length v"
proof -
  assume a: "i < length v" "\<not> v ! i"
  have "marked (v[i := True]) \<le> length (v[i := True])" by (rule marked_le)
  with marked_update[OF a] show ?thesis by simp
qed

lemma marked_all: "\<forall>i<length v. v ! i \<Longrightarrow> marked v = length v"
proof -
  assume "\<forall>i<length v. v ! i"
  then have "\<forall>b\<in>set v. b" by (auto simp: in_set_conv_nth)
  then have "filter (\<lambda>b. b) v = v" by (simp add: filter_id_conv)
  then show ?thesis by (simp add: marked_def)
qed

lemma advances_refl: "advances s s"
  by (simp add: advances_def)

lemma advances_trans: "advances s t \<Longrightarrow> advances t u \<Longrightarrow> advances s u"
proof -
  assume a: "advances s t" "advances t u"
  then have "marked (visited u) + length (queue s) + currentSize s =
        marked (visited s) + length (queue u) + currentSize u"
    unfolding advances_def by linarith
  with a show ?thesis unfolding advances_def by auto
qed

lemma visit_neighbor_step:
  assumes "flood_inv N s" "n < N * N"
  shows "flood_inv N (visit_neighbor sp n s) \<and> advances s (visit_neighbor sp n s) \<and>
         fuel (visit_neighbor sp n s) \<le> fuel s"
proof (cases "\<not> is_visited (visited s) n \<and> cell (lattice s) n = sp")
  case False
  then have "visit_neighbor sp n s = s" by (auto simp: visit_neighbor_def)
  with assms show ?thesis by (simp add: advances_refl)
next
  case True
  let ?v = "visited s"
  from assms have len: "n < length ?v" by (simp add: flood_inv_def)
  with True have nv: "\<not> ?v ! n" by (simp add: is_visited_def)
  have eq: "visit_neighbor sp n s = s\<lparr>visited := ?v[n := True], queue := queue s @ [n]\<rparr>"
    using True by (simp add: visit_neighbor_def)
  have m: "marked (?v[n := True]) = marked ?v + 1" by (rule marked_update[OF len nv])
  have lt: "marked ?v < length ?v" by (rule marked_less[OF len nv])
  have 1: "flood_inv N (visit_neighbor sp n s)"
    using assms by (auto simp: eq flood_inv_def)
  have 2: "advances s (visit_neighbor sp n s)"
    using len by (simp add: eq advances_def m is_visited_def nth_list_update)
  have 3: "fuel (visit_neighbor sp n s) \<le> fuel s"
    using lt by (simp add: eq fuel_def m)
  from 1 2 3 show ?thesis by blast
qed

lemma visit_all_step:
  "flood_inv N s \<Longrightarrow> \<forall>n\<in>set ns. n < N * N \<Longrightarrow>
   flood_inv N (fold (visit_neighbor sp) ns s) \<and> advances s (fold (visit_neighbor sp) ns s) \<and>
   fuel (fold (visit_neighbor sp) ns s) \<le> fuel s"
proof (induction ns arbitrary: s)
  case Nil
  then show ?case by (simp add: advances_refl)
next
  case (Cons n ns)
  from Cons.prems have n: "n < N * N" and ns: "\<forall>n\<in>set ns. n < N * N" by auto
  from visit_neighbor_step[OF Cons.prems(1) n, of sp]
  have a: "flood_inv N (visit_neighbor sp n s)" "advances s (visit_neighbor sp n s)"
    "fuel (visit_neighbor sp n s) \<le> fuel s" by auto
  from Cons.IH[OF a(1) ns] a(2,3) show ?case
    by (auto intro: advances_trans)
qed

lemma neighbors_bound:
  assumes "cur < N * N"
  shows "\<forall>n\<in>set (neighbors N cur). n < N * N"
proof -
  from assms have N: "0 < N" by (cases N) auto
  from idx_coords[OF assms] have "cur mod N < N" "cur div N < N" by auto
  with N show ?thesis
    by (simp add: neighbors_def Let_def getIdx_def getIdx_bound wrap_inc_less wrap_dec_less)
qed

lemma flood_step_step:
  assumes inv: "flood_inv N s" and ne: "queue s \<noteq> []"
  shows "flood_inv N (flood_step sp N s) \<and> advances s (flood_step sp N s) \<and>
         fuel (flood_step sp N s) < fuel s"
proof -
  let ?s1 = "s\<lparr>queue := butlast (queue s), currentSize := currentSize s + 1\<rparr>"
  from ne have "last (queue s) \<in> set (queue s)" by simp
  with inv have cur: "last (queue s) < N * N" by (simp add: flood_inv_def)
  have inv1: "flood_inv N ?s1"
    using inv by (auto simp: flood_inv_def dest: in_set_butlastD)
  from ne have "length (queue s) = length (butlast (queue s)) + 1" by simp
  then have adv1: "advances s ?s1" and f1: "fuel ?s1 < fuel s"
    by (simp_all add: advances_def fuel_def)
  from visit_all_step[OF inv1 neighbors_bound[OF cur], of sp]
  have "flood_inv N (flood_step sp N s)" "advances ?s1 (flood_step sp N s)"
    "fuel (flood_step sp N s) \<le> fuel ?s1"
    by (simp_all add: flood_step_def Let_def)
  with adv1 f1 show ?thesis by (auto intro: advances_trans)
qed

lemma flood_total:
  "flood_inv N s \<Longrightarrow> \<exists>s'. flood sp N s = Some s' \<and> queue s' = [] \<and> advances s s'"
proof (induction s rule: measure_induct_rule[of fuel])
  case (less s)
  show ?case
  proof (cases "queue s = []")
    case True
    then show ?thesis by (subst flood.simps) (simp add: advances_refl)
  next
    case False
    from flood_step_step[OF less.prems False, of sp]
    have a: "flood_inv N (flood_step sp N s)" "advances s (flood_step sp N s)"
      "fuel (flood_step sp N s) < fuel s" by auto
    from less.IH[OF a(3) a(1)] obtain s' where
      s': "flood sp N (flood_step sp N s) = Some s'" "queue s' = []" "advances (flood_step sp N s) s'"
      by blast
    from False s'(1) have "flood sp N s = Some s'" by (subst flood.simps) simp
    with s'(2) advances_trans[OF a(2) s'(3)] show ?thesis by blast
  qed
qed

lemma start_cell_step:
  assumes inv: "scan_inv g N k s" and i: "i < N * N" and nv: "\<not> is_visited (visited s) i"
  shows "\<exists>s'. flood (cell (lattice s) i) N
                 (s\<lparr>currentSize := 0, queue := [i], visited := (visited s)[i := True]\<rparr>) = Some s' \<and>
              scan_inv g N k (s'\<lparr>clusterSizes := clusterSizes s' @ [currentSize s']\<rparr>) \<and>
              is_visited (visited s') i"
proof -
  let ?s0 = "s\<lparr>currentSize := 0, queue := [i], visited := (visited s)[i := True]\<rparr>"
  from inv have len: "length (visited s) = N * N" by (simp add: scan_inv_def)
  with i nv have nvi: "\<not> visited s ! i" by (simp add: is_visited_def)
  from len i have il: "i < length (visited s)" by simp
  have m0: "marked (visited ?s0) = marked (visited s) + 1"
    using marked_update[OF il nvi] by simp
  have "flood_inv N ?s0" using len i by (simp add: flood_inv_def)
  from flood_total[OF this, of "cell (lattice s) i"] obtain s' where
    s': "flood (cell (lattice s) i) N ?s0 = Some s'" "queue s' = []" "advances ?s0 s'" by blast
  from s'(3) have adv: "lattice s' = lattice s" "clusterSizes s' = clusterSizes s"
    "length (visited s') = length (visited s)"
    "\<forall>j. is_visited (visited ?s0) j \<longrightarrow> is_visited (visited s') j"
    "marked (visited s') + length (queue ?s0) + currentSize ?s0 =
        marked (visited ?s0) + length (queue s') + currentSize s'"
    unfolding advances_def by simp_all
  from adv(5) s'(2) m0 have cnt: "marked (visited s') = marked (visited s) + currentSize s'"
    by simp
  have mono: "is_visited (visited s) j \<Longrightarrow> is_visited (visited s') j" for j
  proof -
    assume "is_visited (visited s) j"
    then have "is_visited (visited ?s0) j"
      using il by (simp add: is_visited_def nth_list_update)
    with adv(4) show ?thesis by blast
  qed
  have "is_visited (visited ?s0) i" using il by (simp add: is_visited_def)
  with adv(4) have vi: "is_visited (visited s') i" by blast
  have "scan_inv g N k (s'\<lparr>clusterSizes := clusterSizes s' @ [currentSize s']\<rparr>)"
    using inv adv(1,2,3) cnt mono by (simp add: scan_inv_def)
  with s'(1) vi show ?thesis by blast
qed

lemma scan_inv_next:
  "scan_inv g N k s \<Longrightarrow> is_visited (visited s) k \<Longrightarrow> scan_inv g N (k + 1) s"
  by (auto simp: scan_inv_def less_Suc_eq)

lemma scan_row_total:
  "scan_inv g N (y * N + x) s \<Longrightarrow> y < N \<Longrightarrow> x \<le> N \<Longrightarrow>
   \<exists>s'. scan_row N y x s = Some s' \<and> scan_inv g N (y * N + N) s'"
proof (induction N y x s rule: scan_row.induct)
  case (1 N y x s)
  show ?case
  proof (cases "x < N")
    case False
    with "1.prems" have "x = N" by simp
    with "1.prems"(1) show ?thesis by (subst scan_row.simps) simp
  next
    case True
    let ?i = "getIdx N x y"
    have i: "?i < N * N" using True "1.prems"(2) by (simp add: getIdx_def getIdx_bound)
    have k: "y * N + x = ?i" by (simp add: getIdx_def)
    show ?thesis
    proof (cases "is_visited (visited s) ?i")
      case v: True
      from scan_inv_next[OF "1.prems"(1)] v k
      have "scan_inv g N (y * N + (x + 1)) s" by simp
      from "1.IH"(1)[OF True refl v this "1.prems"(2)] True
      obtain s' where "scan_row N y (x + 1) s = Some s'" "scan_inv g N (y * N + N) s'" by auto
      with True v show ?thesis by (subst scan_row.simps) simp
    next
      case nv: False
      let ?s0 = "s\<lparr>currentSize := 0, queue := [?i], visited := (visited s)[?i := True]\<rparr>"
      from start_cell_step[OF "1.prems"(1) i nv] obtain s1 where
        s1: "flood (cell (lattice s) ?i) N ?s0 = Some s1"
        "scan_inv g N (y * N + x) (s1\<lparr>clusterSizes := clusterSizes s1 @ [currentSize s1]\<rparr>)"
        "is_visited (visited s1) ?i" by blast
      let ?s2 = "s1\<lparr>clusterSizes := clusterSizes s1 @ [currentSize s1]\<rparr>"
      from s1(3) k have "is_visited (visited ?s2) (y * N + x)" by simp
      from scan_inv_next[OF s1(2) this]
      have "scan_inv g N (y * N + (x + 1)) ?s2" by simp
      from "1.IH"(2)[OF True refl nv s1(1) this "1.prems"(2)] True
      obtain s' where "scan_row N y (x + 1) ?s2 = Some s'" "scan_inv g N (y * N + N) s'" by auto
      with True nv s1(1) show ?thesis by (subst scan_row.simps) simp
    qed
  qed
qed

lemma scan_rows_total:
  "scan_inv g N (y * N) s \<Longrightarrow> y \<le> N \<Longrightarrow>
   \<exists>s'. scan_rows N y s = Some s' \<and> scan_inv g N (N * N) s'"
proof (induction N y s rule: scan_rows.induct)
  case (1 N y s)
  show ?case
  proof (cases "y < N")
    case False
    with "1.prems" have "y = N" by simp
    with "1.prems"(1) show ?thesis by (subst scan_rows.simps) simp
  next
    case True
    from "1.prems"(1) have "scan_inv g N (y * N + 0) s" by simp
    from scan_row_total[OF this True] obtain s1 where
      s1: "scan_row N y 0 s = Some s1" "scan_inv g N (y * N + N) s1" by auto
    from s1(2) have "scan_inv g N ((y + 1) * N) s1" by (simp add: add.commute)
    from "1.IH"[OF True s1(1) this] True
    obtain s' where "scan_rows N (y + 1) s1 = Some s'" "scan_inv g N (N * N) s'" by auto
    with True s1(1) show ?thesis by (subst scan_rows.simps) simp
  qed
qed

lemma domainScan_total:
  "\<exists>s. domainScan g N = Some s \<and> lattice s = g \<and> sum_list (clusterSizes s) = N * N"
proof -
  let ?s0 = "\<lparr>lattice = g, visited = replicate (N * N) False, queue = [], currentSize = 0,
        clusterSizes = []\<rparr>"
  have "marked (replicate n False) = 0" for n by (simp add: marked_def)
  then have "scan_inv g N (0 * N) ?s0" by (simp add: scan_inv_def)
  from scan_rows_total[OF this] obtain s where
    s: "scan_rows N 0 ?s0 = Some s" "scan_inv g N (N * N) s" by auto
  from s(2) have "\<forall>i<length (visited s). visited s ! i"
    by (simp add: scan_inv_def is_visited_def)
  from marked_all[OF this] s(2) have "sum_list (clusterSizes s) = N * N"
    by (simp add: scan_inv_def)
  with s show ?thesis by (auto simp: domainScan_def scan_inv_def)
qed

lemma flood_step_counts: "currentSize (flood_step sp N s) = currentSize s + 1"
proof -
  have "currentSize (fold (visit_neighbor sp) ns t) = currentSize t" for ns t
    by (induction ns arbitrary: t) (simp_all add: visit_neighbor_def)
  then show ?thesis by (simp add: flood_step_def Let_def)
qed

lemma tally_sum:
  "(\<Sum>(k, c)\<leftarrow>tally d s. k * c) = (\<Sum>(k, c)\<leftarrow>d. k * c) + s"
  by (induction d s rule: tally.induct) auto

lemma foldl_tally_sum:
  "(\<Sum>(k, c)\<leftarrow>foldl tally d sizes. k * c) = (\<Sum>(k, c)\<leftarrow>d. k * c) + sum_list sizes"
  by (induction sizes arbitrary: d) (simp_all add: tally_sum)

lemma sum_list_sort_key:
  fixes f :: "'a \<Rightarrow> nat"
  shows "sum_list (map f (sort_key k xs)) = sum_list (map f xs)"
proof -
  have "mset (map f (sort_key k xs)) = mset (map f xs)" by simp
  then have "sum_mset (mset (map f (sort_key k xs))) = sum_mset (mset (map f xs))" by simp
  then show ?thesis by (simp only: sum_mset_sum_list)
qed

lemma domainData_sum: "(\<Sum>(k, c)\<leftarrow>domainData sizes. k * c) = sum_list sizes"
  by (simp add: domainData_def sum_list_sort_key foldl_tally_sum)

text \<open>
  Claim C3. On every grid and every side length the analysis returns, and the sizes
  of the returned pairs, each taken as often as its count says, add up to \<open>N\<^sup>2\<close>.
\<close>

theorem domain_partition:
  "\<exists>g' d. analyzeDomains g N = Some (g', d) \<and> (\<Sum>(sz, cnt)\<leftarrow>d. sz * cnt) = N * N"
proof -
  from domainScan_total[of g N] obtain s where
    "domainScan g N = Some s" "sum_list (clusterSizes s) = N * N" by blast
  then show ?thesis by (simp add: analyzeDomains_def domainData_sum)
qed

text \<open>
  Claim C10. The analysis returns on every grid: each iteration of the \<^verbatim>\<open>while\<close> loop
  pops one cell and counts it in \<open>currentSize\<close> (\<open>flood_step_counts\<close>), so the recorded
  sizes add up to the number of pops of the whole call, which is at most \<open>N\<^sup>2\<close>.
\<close>

theorem analyzeDomains_terminates:
  "\<exists>s res. domainScan g N = Some s \<and> sum_list (clusterSizes s) \<le> N * N \<and>
           analyzeDomains g N = Some res"
proof -
  from domainScan_total[of g N] obtain s where
    "domainScan g N = Some s" "sum_list (clusterSizes s) = N * N" by blast
  then show ?thesis by (simp add: analyzeDomains_def)
qed

text \<open>
  Claim C9. The call leaves the grid as it found it, and a second call on that grid
  returns the same distribution. The analysis has no input but the grid and the side
  length: it takes no draw from the random source.
\<close>

theorem analyzeDomains_pure:
  "\<exists>d. analyzeDomains g N = Some (g, d) \<and>
       (case analyzeDomains g N of
          None \<Rightarrow> False
        | Some res \<Rightarrow> fst res = g \<and> analyzeDomains (fst res) N = Some (g, d))"
proof -
  from domainScan_total[of g N] obtain s where
    "domainScan g N = Some s" "lattice s = g" by blast
  then show ?thesis by (simp add: analyzeDomains_def)
qed

section \<open>The all-up lattice of side 2\<close>

lemma exp_minus8: "exp (- 8 :: real) < 1 / 2"
proof -
  have "1 + (8::real) \<le> exp 8" by (rule exp_ge_add_one_self)
  then have "(2::real) < exp 8" by simp
  then have "1 / exp (8::real) < 1 / 2" by (simp add: field_simps)
  then show ?thesis by (simp add: exp_minus field_simps)
qed

lemma neg_div_one: "neg_div 8 1 = Num (- 8)"
proof -
  have "binary64 (- 8) = - 8" by code_simp
  moreover have "\<not> overflow_threshold \<le> 8"
  proof -
    have "(8::rat) = 2 ^ 3" by simp
    also have "\<dots> < 2 ^ 1024" by (rule power_strict_increasing) simp_all
    finally show ?thesis by (simp only: overflow_threshold_def not_le)
  qed
  ultimately show ?thesis by (simp add: neg_div_def Let_def)
qed

lemma exp_rounded_minus8: "\<not> js_less (1 / 2) (exp_rounded (Num (- 8)))"
proof -
  have "exp (- 8 :: real) \<le> 1 / 2" using exp_minus8 by simp
  from round_double_le_half[OF exp_gt_zero this] obtain v where
    "round_double (exp (- 8)) = Num v" "v \<le> 1 / 2" by blast
  then show ?thesis by (simp add: exp_rounded_def js_less_def)
qed

lemma two_double: "binary64 2 = 2"
  by code_simp

lemma attempt_up:
  "flip_attempt (expTable exp_rounded 1) 2 ([1, 1, 1, 1], sconst (1 / 2)) =
     ([1, 1, 1, 1], sconst (1 / 2))"
proof -
  have "nat \<lfloor>binary64 ((1 / 2) * of_nat (2 * 2))\<rfloor> = 2" by (simp add: two_double)
  moreover have "\<not> accepts (1 / 2) (expTable exp_rounded 1) (Some 8)"
    using exp_rounded_minus8 by (simp add: accepts_def expTable_def neg_div_one)
  ultimately show ?thesis
    by (simp add: flip_attempt_def Let_def dE_up num_le0_def)
qed

lemma attempts_fixed: "flip_attempt tbl N st = st \<Longrightarrow> attempts tbl N k st = st"
  by (induction k) simp_all

lemma sweep_up:
  "performMCS exp_rounded [1, 1, 1, 1] 2 1 (sconst (1 / 2)) = ([1, 1, 1, 1], sconst (1 / 2))"
  unfolding performMCS_def by (rule attempts_fixed[OF attempt_up])

text \<open>
  Claim C8. \<open>N = 2\<close>, all four cells up, \<open>T = 1\<close>: every neighbour sum is 4 and every
  energy delta is 8; the table entry for 8 is \<^verbatim>\<open>Math.exp(-8)\<close>, and neither it nor
  \<open>exp (-8)\<close> is above the stubbed draw \<open>1/2\<close>; a full sweep leaves the grid as it is,
  and the analysis returns one domain of size 4.
\<close>

theorem all_up_scenario:
  "neighborSum [1, 1, 1, 1] 2 0 = Some 4 \<and> neighborSum [1, 1, 1, 1] 2 1 = Some 4 \<and>
   neighborSum [1, 1, 1, 1] 2 2 = Some 4 \<and> neighborSum [1, 1, 1, 1] 2 3 = Some 4 \<and>
   energyDelta [1, 1, 1, 1] 2 0 = Some 8 \<and> energyDelta [1, 1, 1, 1] 2 1 = Some 8 \<and>
   energyDelta [1, 1, 1, 1] 2 2 = Some 8 \<and> energyDelta [1, 1, 1, 1] 2 3 = Some 8 \<and>
   expTable exp_rounded 1 8 = Some (exp_rounded (Num (- 8))) \<and>
   exp (- 8) \<le> (1 / 2 :: real) \<and>
   \<not> js_less (1 / 2) (exp_rounded (Num (- 8))) \<and>
   performMCS exp_rounded [1, 1, 1, 1] 2 1 (sconst (1 / 2)) = ([1, 1, 1, 1], sconst (1 / 2)) \<and>
   analyzeDomains [1, 1, 1, 1] 2 = Some ([1, 1, 1, 1], [(4, 1)])"
proof -
  have tbl: "expTable exp_rounded 1 8 = Some (exp_rounded (Num (- 8)))"
    by (simp add: expTable_def neg_div_one)
  have an: "analyzeDomains [1, 1, 1, 1] 2 = Some ([1, 1, 1, 1], [(4, 1)])" by code_simp
  have e: "exp (- 8) \<le> (1 / 2 :: real)" using exp_minus8 by simp
  from nsum_up dE_up tbl e exp_rounded_minus8 sweep_up an show ?thesis by (intro conjI)
qed

section \<open>The scheduler\<close>


lemma analyse_some:
  "\<exists>d. analyse st = Some (st\<lparr>stats := d, calls := calls st @ [Analyze]\<rparr>)"
proof -
  from domainScan_total[of "gridRef st" "sizeRef st"] obtain s where
    "domainScan (gridRef st) (sizeRef st) = Some s" "lattice s = gridRef st" by blast
  then show ?thesis by (auto simp: analyse_def analyzeDomains_def)
qed

lemma sweep_fields:
  "calls (sweep st) = calls st @ [Sweep]" "accumulatorRef (sweep st) = accumulatorRef st"
  "speedRef (sweep st) = speedRef st" "runningRef (sweep st) = runningRef st"
  "frameCountRef (sweep st) = frameCountRef st" "sizeRef (sweep st) = sizeRef st"
  by (simp_all add: sweep_def Let_def)

lemma sweeps_fields:
  "calls (sweeps n st) = calls st @ replicate n Sweep \<and>
   accumulatorRef (sweeps n st) = accumulatorRef st \<and>
   speedRef (sweeps n st) = speedRef st \<and> runningRef (sweeps n st) = runningRef st \<and>
   frameCountRef (sweeps n st) = frameCountRef st"
  by (induction n arbitrary: st) (simp_all add: sweep_fields replicate_app_Cons_same)

lemma loop_idle:
  "runningRef st \<Longrightarrow> \<not> 0 < updatesToPerform st \<Longrightarrow>
   loop st = Some (st\<lparr>accumulatorRef := accumulated st\<rparr>)"
  by (simp add: loop_def Let_def)

lemma loop_busy:
  assumes "runningRef st" "0 < updatesToPerform st"
  shows "\<exists>st'. loop st = Some st' \<and>
     runningRef st' \<and> speedRef st' = speedRef st \<and>
     accumulatorRef st' = binary64 (accumulated st - of_int (updatesToPerform st)) \<and>
     frameCountRef st' = frameCountRef st + 1 \<and>
     calls st' = calls st @ replicate (nat (updatesToPerform st)) Sweep @
       (if speedRef st < 1 \<or> (frameCountRef st + 1) mod 10 = 0 then [Analyze] else [])"
proof -
  let ?n = "updatesToPerform st"
  let ?st2 = "st\<lparr>accumulatorRef := binary64 (accumulated st - of_int ?n)\<rparr>"
  let ?st3 = "sweeps (nat ?n) ?st2"
  let ?st5 = "?st3\<lparr>gridData := gridRef ?st3, frameCountRef := frameCountRef ?st3 + 1\<rparr>"
  from sweeps_fields[of "nat ?n" ?st2]
  have f: "calls ?st3 = calls st @ replicate (nat ?n) Sweep"
    "accumulatorRef ?st3 = binary64 (accumulated st - of_int ?n)"
    "speedRef ?st3 = speedRef st" "runningRef ?st3 = runningRef st"
    "frameCountRef ?st3 = frameCountRef st" by simp_all
  have l: "loop st = (if shouldUpdateStats ?st5 then analyse ?st5 else Some ?st5)"
    using assms by (simp add: loop_def Let_def)
  have c: "shouldUpdateStats ?st5 = (speedRef st < 1 \<or> (frameCountRef st + 1) mod 10 = 0)"
    by (simp add: shouldUpdateStats_def f)
  show ?thesis
  proof (cases "shouldUpdateStats ?st5")
    case True
    from analyse_some[of ?st5] obtain d where
      "analyse ?st5 = Some (?st5\<lparr>stats := d, calls := calls ?st5 @ [Analyze]\<rparr>)" by blast
    with l True c assms(1) f show ?thesis by simp
  next
    case False
    with l c assms(1) f show ?thesis by simp
  qed
qed

lemma count_calls_append:
  "count_list (xs @ replicate n Sweep @ (if b then [Analyze] else [])) Sweep = count_list xs Sweep + n"
  by (induction n) (simp_all add: replicate_app_Cons_same)

lemma loop_acc:
  assumes "runningRef st"
  shows "\<exists>st'. loop st = Some st' \<and> runningRef st' \<and> speedRef st' = speedRef st \<and>
     accumulatorRef st' = fst (tick_acc (speedRef st) (accumulatorRef st)) \<and>
     count_calls Sweep st' = count_calls Sweep st + snd (tick_acc (speedRef st) (accumulatorRef st))"
proof (cases "0 < updatesToPerform st")
  case True
  from loop_busy[OF assms True] obtain st' where
    st': "loop st = Some st'" "runningRef st'" "speedRef st' = speedRef st"
    "accumulatorRef st' = binary64 (accumulated st - of_int (updatesToPerform st))"
    "calls st' = calls st @ replicate (nat (updatesToPerform st)) Sweep @
       (if speedRef st < 1 \<or> (frameCountRef st + 1) mod 10 = 0 then [Analyze] else [])"
    by blast
  from st'(5) have "count_calls Sweep st' = count_calls Sweep st + nat (updatesToPerform st)"
    unfolding count_calls_def by (simp only: count_calls_append)
  moreover from True have "tick_acc (speedRef st) (accumulatorRef st) =
      (binary64 (accumulated st - of_int (updatesToPerform st)), nat (updatesToPerform st))"
    by (simp add: tick_acc_def Let_def updatesToPerform_def accumulated_def)
  ultimately show ?thesis using st'(1-4) by simp
next
  case False
  then have "tick_acc (speedRef st) (accumulatorRef st) = (accumulated st, 0)"
    by (simp add: tick_acc_def Let_def updatesToPerform_def accumulated_def)
  with loop_idle[OF assms False] assms show ?thesis by (simp add: count_calls_def)
qed

lemma ticks_acc:
  "runningRef st \<Longrightarrow>
   \<exists>st'. ticks n st = Some st' \<and> runningRef st' \<and> speedRef st' = speedRef st \<and>
     (accumulatorRef st', count_calls Sweep st') =
       run_acc (speedRef st) n (accumulatorRef st, count_calls Sweep st)"
proof (induction n arbitrary: st)
  case 0
  then show ?case by simp
next
  case (Suc n)
  from loop_acc[OF Suc.prems] obtain st1 where
    st1: "loop st = Some st1" "runningRef st1" "speedRef st1 = speedRef st"
    "accumulatorRef st1 = fst (tick_acc (speedRef st) (accumulatorRef st))"
    "count_calls Sweep st1 = count_calls Sweep st + snd (tick_acc (speedRef st) (accumulatorRef st))"
    by blast
  from Suc.IH[OF st1(2)] obtain st' where
    "ticks n st1 = Some st'" "runningRef st'" "speedRef st' = speedRef st1"
    "(accumulatorRef st', count_calls Sweep st') =
       run_acc (speedRef st1) n (accumulatorRef st1, count_calls Sweep st1)" by blast
  with st1 show ?case by simp
qed

lemma floor_step:
  fixes f :: rat
  shows "\<lfloor>frac (f * of_nat j) + f\<rfloor> = \<lfloor>f * of_nat (Suc j)\<rfloor> - \<lfloor>f * of_nat j\<rfloor>"
proof -
  have "frac (f * of_nat j) + f = f * of_nat (Suc j) - of_int \<lfloor>f * of_nat j\<rfloor>"
    by (simp add: frac_def algebra_simps)
  then show ?thesis by simp
qed

lemma frac_step:
  fixes f :: rat
  shows "frac (f * of_nat j) + f - of_int \<lfloor>frac (f * of_nat j) + f\<rfloor> = frac (f * of_nat (Suc j))"
  unfolding floor_step by (simp add: frac_def algebra_simps)

lemma tick_acc_repr:
  assumes "representable x" "representable (x - of_int \<lfloor>x\<rfloor>)" "0 \<le> x" "x = a + f"
  shows "tick_acc f a = (x - of_int \<lfloor>x\<rfloor>, nat \<lfloor>x\<rfloor>)"
proof (cases "0 < \<lfloor>x\<rfloor>")
  case True
  with assms(1,2) show ?thesis
    unfolding tick_acc_def Let_def assms(4)[symmetric] representable_def by simp
next
  case False
  from assms(3) have "0 \<le> \<lfloor>x\<rfloor>" by (simp only: zero_le_floor)
  with False have z: "\<lfloor>x\<rfloor> = 0" by linarith
  with assms(1) show ?thesis
    unfolding tick_acc_def Let_def assms(4)[symmetric] representable_def by simp
qed

lemma tick_acc_exact:
  fixes f :: rat
  assumes "0 < f" "representable (frac (f * of_nat j) + f)" "representable (frac (f * of_nat (Suc j)))"
  shows "tick_acc f (frac (f * of_nat j)) =
           (frac (f * of_nat (Suc j)), nat (\<lfloor>f * of_nat (Suc j)\<rfloor> - \<lfloor>f * of_nat j\<rfloor>))"
proof -
  let ?x = "frac (f * of_nat j) + f"
  have r2: "representable (?x - of_int \<lfloor>?x\<rfloor>)" using assms(3) by (simp only: frac_step)
  have pos: "0 \<le> ?x" using assms(1) frac_ge_0[of "f * of_nat j"] by linarith
  from tick_acc_repr[OF assms(2) r2 pos refl]
  have "tick_acc f (frac (f * of_nat j)) = (?x - of_int \<lfloor>?x\<rfloor>, nat \<lfloor>?x\<rfloor>)" .
  then have "tick_acc f (frac (f * of_nat j)) = (frac (f * of_nat (Suc j)), nat \<lfloor>?x\<rfloor>)"
    by (simp only: frac_step)
  then show ?thesis by (simp only: floor_step)
qed

lemma run_acc_exact:
  fixes f :: rat
  assumes "0 < f"
  shows "\<forall>k. j \<le> k \<and> k < j + n \<longrightarrow>
           representable (frac (f * of_nat k) + f) \<and> representable (frac (f * of_nat (Suc k))) \<Longrightarrow>
         run_acc f n (frac (f * of_nat j), c) =
           (frac (f * of_nat (j + n)), c + nat (\<lfloor>f * of_nat (j + n)\<rfloor> - \<lfloor>f * of_nat j\<rfloor>))"
proof (induction n arbitrary: j c)
  case 0
  then show ?case by simp
next
  case (Suc n)
  from Suc.prems have here: "representable (frac (f * of_nat j) + f)"
    "representable (frac (f * of_nat (Suc j)))" by auto
  from Suc.prems have rest: "\<forall>k. Suc j \<le> k \<and> k < Suc j + n \<longrightarrow>
      representable (frac (f * of_nat k) + f) \<and> representable (frac (f * of_nat (Suc k)))"
    by auto
  have mono: "\<lfloor>f * of_nat j\<rfloor> \<le> \<lfloor>f * of_nat (Suc j)\<rfloor>" "\<lfloor>f * of_nat (Suc j)\<rfloor> \<le> \<lfloor>f * of_nat (Suc j + n)\<rfloor>"
    using assms by (auto intro!: floor_mono mult_left_mono)
  have "run_acc f (Suc n) (frac (f * of_nat j), c) =
        run_acc f n (frac (f * of_nat (Suc j)), c + nat (\<lfloor>f * of_nat (Suc j)\<rfloor> - \<lfloor>f * of_nat j\<rfloor>))"
    by (simp add: tick_acc_exact[OF assms here])
  also have "\<dots> = (frac (f * of_nat (Suc j + n)),
      c + nat (\<lfloor>f * of_nat (Suc j)\<rfloor> - \<lfloor>f * of_nat j\<rfloor>) + nat (\<lfloor>f * of_nat (Suc j + n)\<rfloor> - \<lfloor>f * of_nat (Suc j)\<rfloor>))"
    by (rule Suc.IH[OF rest])
  also have "\<dots> = (frac (f * of_nat (j + Suc n)), c + nat (\<lfloor>f * of_nat (j + Suc n)\<rfloor> - \<lfloor>f * of_nat j\<rfloor>))"
    using mono by (simp add: nat_diff_distrib')
  finally show ?case .
qed

lemma exact_run_prefix: "exact_run f n \<Longrightarrow> m \<le> n \<Longrightarrow> exact_run f m"
  by (auto simp: exact_run_def list_all_iff)

lemma exact_law:
  assumes "runningRef st" and "accumulatorRef st = 0" and "0 < speedRef st"
    and "exact_run (speedRef st) n" and "m \<le> n"
  shows "\<exists>st'. ticks m st = Some st' \<and>
           count_calls Sweep st' = count_calls Sweep st + nat \<lfloor>speedRef st * of_nat m\<rfloor> \<and>
           accumulatorRef st' = frac (speedRef st * of_nat m) \<and>
           0 \<le> accumulatorRef st' \<and> accumulatorRef st' < 1"
proof -
  let ?f = "speedRef st"
  from exact_run_prefix[OF assms(4,5)]
  have "\<forall>k. 0 \<le> k \<and> k < 0 + m \<longrightarrow>
           representable (frac (?f * of_nat k) + ?f) \<and> representable (frac (?f * of_nat (Suc k)))"
    by (simp add: exact_run_def list_all_iff)
  from run_acc_exact[OF assms(3) this, of "count_calls Sweep st"] assms(2)
  have r: "run_acc ?f m (accumulatorRef st, count_calls Sweep st) =
          (frac (?f * of_nat m), count_calls Sweep st + nat \<lfloor>?f * of_nat m\<rfloor>)" by simp
  from ticks_acc[OF assms(1), of m] obtain st' where
    "ticks m st = Some st'" "(accumulatorRef st', count_calls Sweep st') =
       run_acc ?f m (accumulatorRef st, count_calls Sweep st)" by blast
  with r have "ticks m st = Some st'" "accumulatorRef st' = frac (?f * of_nat m)"
    "count_calls Sweep st' = count_calls Sweep st + nat \<lfloor>?f * of_nat m\<rfloor>" by simp_all
  then show ?thesis by (simp add: frac_lt_1)
qed

lemma tick_acc_frac:
  assumes "0 \<le> a" "0 < f"
  shows "tick_acc f a = (frac (binary64 (a + f)), nat \<lfloor>binary64 (a + f)\<rfloor>)"
proof -
  let ?y = "binary64 (a + f)"
  from assms have pos: "0 < a + f" by simp
  then have "0 \<le> ?y" by (intro binary64_nonneg) simp
  then have fl0: "0 \<le> \<lfloor>?y\<rfloor>" by (simp only: zero_le_floor)
  show ?thesis
  proof (cases "0 < \<lfloor>?y\<rfloor>")
    case True
    from binary64_frac_representable[OF pos]
    have "binary64 (?y - of_int \<lfloor>?y\<rfloor>) = ?y - of_int \<lfloor>?y\<rfloor>" by (simp add: representable_def)
    with True show ?thesis by (simp add: tick_acc_def Let_def frac_def del: zero_less_floor)
  next
    case False
    with fl0 have z: "\<lfloor>?y\<rfloor> = 0" by linarith
    then have "frac ?y = ?y" by (simp add: frac_def)
    with z show ?thesis by (simp add: tick_acc_def Let_def del: zero_less_floor)
  qed
qed

lemma tick_acc_sum:
  assumes "0 \<le> a" "0 < f"
  shows "of_nat (snd (tick_acc f a)) + fst (tick_acc f a) = binary64 (a + f)"
proof -
  let ?y = "binary64 (a + f)"
  from assms have "0 \<le> ?y" by (intro binary64_nonneg) simp
  then have "0 \<le> \<lfloor>?y\<rfloor>" by (simp only: zero_le_floor)
  then have "(of_nat (nat \<lfloor>?y\<rfloor>) :: rat) = of_int \<lfloor>?y\<rfloor>" by simp
  then show ?thesis by (simp add: tick_acc_frac[OF assms] frac_def)
qed

lemma tick_acc_range:
  assumes "0 \<le> a" "0 < f"
  shows "0 \<le> fst (tick_acc f a) \<and> fst (tick_acc f a) < 1"
  by (simp add: tick_acc_frac[OF assms] frac_lt_1)

lemma tick_acc_error:
  assumes "0 \<le> a" "a < 1" "0 < f"
  shows "\<bar>of_nat (snd (tick_acc f a)) + fst (tick_acc f a) - (a + f)\<bar> \<le> (1 + f) / 2 ^ 53"
proof -
  have "\<bar>binary64 (a + f) - (a + f)\<bar> \<le> \<bar>a + f\<bar> / 2 ^ 53" by (rule binary64_rel_error)
  also have "\<dots> \<le> (1 + f) / 2 ^ 53" using assms by (intro divide_right_mono) simp_all
  finally show ?thesis by (simp only: tick_acc_sum[OF assms(1,3)])
qed

lemma run_acc_law:
  assumes f: "0 < f"
  shows "0 \<le> a \<Longrightarrow> a < 1 \<Longrightarrow>
    0 \<le> fst (run_acc f n (a, c)) \<and> fst (run_acc f n (a, c)) < 1 \<and>
    c \<le> snd (run_acc f n (a, c)) \<and>
    \<bar>of_nat (snd (run_acc f n (a, c))) + fst (run_acc f n (a, c)) - (of_nat c + a + f * of_nat n)\<bar>
      \<le> of_nat n * (1 + f) / 2 ^ 53"
proof (induction n arbitrary: a c)
  case 0
  then show ?case by simp
next
  case (Suc n)
  let ?a1 = "fst (tick_acc f a)" and ?k = "snd (tick_acc f a)"
  let ?r = "run_acc f n (?a1, c + ?k)"
  from tick_acc_range[OF Suc.prems(1) f] have r1: "0 \<le> ?a1" "?a1 < 1" by simp_all
  from Suc.IH[OF r1, of "c + ?k"] have ih: "0 \<le> fst ?r" "fst ?r < 1" "c + ?k \<le> snd ?r"
    "\<bar>of_nat (snd ?r) + fst ?r - (of_nat (c + ?k) + ?a1 + f * of_nat n)\<bar> \<le> of_nat n * (1 + f) / 2 ^ 53"
    by simp_all
  from tick_acc_error[OF Suc.prems f]
  have e: "\<bar>of_nat ?k + ?a1 - (a + f)\<bar> \<le> (1 + f) / 2 ^ 53" .
  have "\<bar>of_nat (snd ?r) + fst ?r - (of_nat c + a + f * of_nat (Suc n))\<bar>
      \<le> \<bar>of_nat (snd ?r) + fst ?r - (of_nat (c + ?k) + ?a1 + f * of_nat n)\<bar>
        + \<bar>of_nat ?k + ?a1 - (a + f)\<bar>"
    by (simp add: algebra_simps)
  also have "\<dots> \<le> of_nat n * (1 + f) / 2 ^ 53 + (1 + f) / 2 ^ 53"
    using ih(4) e by (rule add_mono)
  also have "\<dots> = of_nat (Suc n) * (1 + f) / 2 ^ 53" by (simp add: algebra_simps add_divide_distrib)
  finally have "\<bar>of_nat (snd ?r) + fst ?r - (of_nat c + a + f * of_nat (Suc n))\<bar>
      \<le> of_nat (Suc n) * (1 + f) / 2 ^ 53" .
  moreover have "run_acc f (Suc n) (a, c) = ?r" by simp
  moreover have "c \<le> snd ?r" using ih(3) by simp
  ultimately show ?case using ih(1,2) by simp
qed

text \<open>
  Claim C2, as the code has it. The accumulator is a double. Started with the
  accumulator 0 and running at a speed \<open>f > 0\<close>, after every tick \<open>m\<close> the accumulator
  is in \<open>[0, 1)\<close>, and the sweeps made differ from \<open>f m\<close> by less than 1 plus the
  rounding errors of the \<open>m\<close> additions, each at most \<open>(1 + f) / 2\<^sup>5\<^sup>3\<close>. In a run in
  which no addition and no subtraction is rounded the sweeps made are \<open>\<lfloor>f m\<rfloor>\<close> and
  the accumulator is the fractional part of \<open>f m\<close>.
\<close>

theorem throughput_law:
  assumes "runningRef st" and "accumulatorRef st = 0" and "0 < speedRef st"
  shows "\<exists>st'. ticks m st = Some st' \<and>
           0 \<le> accumulatorRef st' \<and> accumulatorRef st' < 1 \<and>
           count_calls Sweep st \<le> count_calls Sweep st' \<and>
           \<bar>of_nat (count_calls Sweep st' - count_calls Sweep st) - speedRef st * of_nat m\<bar>
             < 1 + of_nat m * (1 + speedRef st) / 2 ^ 53 \<and>
           (exact_run (speedRef st) m \<longrightarrow>
              count_calls Sweep st' = count_calls Sweep st + nat \<lfloor>speedRef st * of_nat m\<rfloor> \<and>
              accumulatorRef st' = frac (speedRef st * of_nat m))"
proof -
  let ?f = "speedRef st" and ?c = "count_calls Sweep st"
  from ticks_acc[OF assms(1), of m] obtain st' where
    t: "ticks m st = Some st'" and
    r: "(accumulatorRef st', count_calls Sweep st') = run_acc ?f m (accumulatorRef st, ?c)"
    by blast
  let ?a' = "accumulatorRef st'" and ?c' = "count_calls Sweep st'"
  from r assms(2) have fs: "fst (run_acc ?f m (0, ?c)) = ?a'" "snd (run_acc ?f m (0, ?c)) = ?c'"
    by (simp_all add: prod_eq_iff)
  from run_acc_law[OF assms(3), of 0 m ?c]
  have law: "0 \<le> ?a'" "?a' < 1" "?c \<le> ?c'"
    "\<bar>of_nat ?c' + ?a' - (of_nat ?c + 0 + ?f * of_nat m)\<bar> \<le> of_nat m * (1 + ?f) / 2 ^ 53"
    unfolding fs by simp_all
  from law(3) have "(of_nat (?c' - ?c) :: rat) = of_nat ?c' - of_nat ?c" by (simp add: of_nat_diff)
  with law(1,2,4) have bound:
    "\<bar>of_nat (?c' - ?c) - ?f * of_nat m\<bar> < 1 + of_nat m * (1 + ?f) / 2 ^ 53"
    by (simp add: abs_if split: if_splits)
  have exact: "exact_run ?f m \<longrightarrow> ?c' = ?c + nat \<lfloor>?f * of_nat m\<rfloor> \<and> ?a' = frac (?f * of_nat m)"
  proof
    assume ex: "exact_run ?f m"
    from exact_law[OF assms(1,2,3) ex order_refl] t
    show "?c' = ?c + nat \<lfloor>?f * of_nat m\<rfloor> \<and> ?a' = frac (?f * of_nat m)" by auto
  qed
  from t law(1,2,3) bound exact show ?thesis by blast
qed

lemma exact_quarter: "exact_run (1 / 4) 4"
  by code_simp

text \<open>
  Claim C2 at the speed \<open>1/4\<close>: the run of 4 ticks is exact, makes one sweep and leaves
  the accumulator at 0.
\<close>

theorem throughput_law_witness:
  "runningRef (demo_state (1 / 4)) \<and> accumulatorRef (demo_state (1 / 4)) = 0 \<and>
   0 < speedRef (demo_state (1 / 4)) \<and> exact_run (speedRef (demo_state (1 / 4))) 4 \<and>
   map_option (count_calls Sweep) (ticks 4 (demo_state (1 / 4))) = Some 1 \<and>
   map_option accumulatorRef (ticks 4 (demo_state (1 / 4))) = Some 0"
proof -
  have h1: "runningRef (demo_state (1 / 4))" by (simp add: demo_state_def)
  have h2: "accumulatorRef (demo_state (1 / 4)) = 0" by (simp add: demo_state_def)
  have h3: "0 < speedRef (demo_state (1 / 4))" by (simp add: demo_state_def)
  have h4: "exact_run (speedRef (demo_state (1 / 4))) 4"
    using exact_quarter by (simp add: demo_state_def)
  from throughput_law[OF h1 h2 h3, of 4] h4 obtain st' where
    "ticks 4 (demo_state (1 / 4)) = Some st'"
    "count_calls Sweep st' = count_calls Sweep (demo_state (1 / 4)) +
       nat \<lfloor>speedRef (demo_state (1 / 4)) * of_nat 4\<rfloor>"
    "accumulatorRef st' = frac (speedRef (demo_state (1 / 4)) * of_nat 4)" by blast
  then have "map_option (count_calls Sweep) (ticks 4 (demo_state (1 / 4))) = Some 1"
    "map_option accumulatorRef (ticks 4 (demo_state (1 / 4))) = Some 0"
    by (simp_all add: demo_state_def count_calls_def)
  with h1 h2 h3 h4 show ?thesis by (intro conjI)
qed

lemma tenth_run:
  "run_acc (3602879701896397 / 36028797018963968) 10 (0, 0) =
     (9007199254740991 / 9007199254740992, 0)"
  by code_simp

lemma tenth_floor:
  "\<lfloor>(3602879701896397 / 36028797018963968 :: rat) * 10\<rfloor> = 1"
  "\<not> \<bar>(3602879701896397 / 36028797018963968 :: rat) * 10 - 0\<bar> < 1"
  by code_simp+

text \<open>
  Claim C2 as stated fails at the speed level 0.1, whose double is
  \<open>3602879701896397 / 2\<^sup>5\<^sup>5\<close>: ten additions give \<open>1 - 2\<^sup>-\<^sup>5\<^sup>3\<close>, so after 10 ticks
  no sweep has been made, while \<open>\<lfloor>f T\<rfloor> = 1\<close> and \<open>f T\<close> is more than 1 away from 0.
\<close>

theorem throughput_counterexample:
  "map_option (count_calls Sweep) (ticks 10 (demo_state (3602879701896397 / 36028797018963968))) = Some 0 \<and>
   map_option accumulatorRef (ticks 10 (demo_state (3602879701896397 / 36028797018963968))) =
     Some (9007199254740991 / 9007199254740992) \<and>
   \<lfloor>(3602879701896397 / 36028797018963968 :: rat) * 10\<rfloor> = 1 \<and>
   \<not> \<bar>(3602879701896397 / 36028797018963968 :: rat) * 10 - 0\<bar> < 1"
proof -
  let ?st = "demo_state (3602879701896397 / 36028797018963968)"
  have r: "runningRef ?st" by (simp add: demo_state_def)
  from ticks_acc[OF r, of 10] obtain st' where
    "ticks 10 ?st = Some st'"
    "(accumulatorRef st', count_calls Sweep st') =
       run_acc (speedRef ?st) 10 (accumulatorRef ?st, count_calls Sweep ?st)" by blast
  then have "ticks 10 ?st = Some st'"
    "(accumulatorRef st', count_calls Sweep st') = (9007199254740991 / 9007199254740992, 0)"
    by (simp_all add: demo_state_def count_calls_def tenth_run)
  then have "map_option (count_calls Sweep) (ticks 10 ?st) = Some 0"
    "map_option accumulatorRef (ticks 10 ?st) = Some (9007199254740991 / 9007199254740992)"
    by simp_all
  with tenth_floor show ?thesis by (intro conjI)
qed

section \<open>The throttle\<close>

text \<open>
  Claim C7. A call of \<open>loop\<close> that makes at least one sweep adds one to the frame
  counter, and calls the analysis, once and after the sweeps, if and only if the
  speed is below 1 or the new value of the counter is a multiple of 10.
\<close>

theorem throttle_policy:
  assumes "runningRef st" and "0 < updatesToPerform st"
  shows "\<exists>st'. loop st = Some st' \<and> frameCountRef st' = frameCountRef st + 1 \<and>
     calls st' = calls st @ replicate (nat (updatesToPerform st)) Sweep @
       (if speedRef st < 1 \<or> frameCountRef st' mod 10 = 0 then [Analyze] else []) \<and>
     count_calls Analyze st' = count_calls Analyze st +
       (if speedRef st < 1 \<or> frameCountRef st' mod 10 = 0 then 1 else 0)"
proof -
  from loop_busy[OF assms] obtain st' where
    st': "loop st = Some st'" "frameCountRef st' = frameCountRef st + 1"
    "calls st' = calls st @ replicate (nat (updatesToPerform st)) Sweep @
       (if speedRef st < 1 \<or> (frameCountRef st + 1) mod 10 = 0 then [Analyze] else [])"
    by blast
  have "count_list (replicate n Sweep) Analyze = 0" for n by (induction n) simp_all
  with st'(3) have "count_calls Analyze st' = count_calls Analyze st +
       (if speedRef st < 1 \<or> (frameCountRef st + 1) mod 10 = 0 then 1 else 0)"
    by (simp add: count_calls_def)
  with st' show ?thesis by simp
qed

text \<open>
  Claim C7 at the speed 1 with the frame counter at 9: the tick makes one sweep, the
  counter reaches 10 and the analysis is called.
\<close>

theorem throttle_policy_witness:
  "runningRef ((demo_state 1)\<lparr>frameCountRef := 9\<rparr>) \<and>
   0 < updatesToPerform ((demo_state 1)\<lparr>frameCountRef := 9\<rparr>) \<and>
   map_option frameCountRef (loop ((demo_state 1)\<lparr>frameCountRef := 9\<rparr>)) = Some 10 \<and>
   map_option calls (loop ((demo_state 1)\<lparr>frameCountRef := 9\<rparr>)) = Some [Sweep, Analyze]"
proof -
  let ?st = "(demo_state 1)\<lparr>frameCountRef := 9\<rparr>"
  have h1: "runningRef ?st" by (simp add: demo_state_def)
  have u: "updatesToPerform ?st = 1"
    by (simp add: updatesToPerform_def accumulated_def demo_state_def one_double)
  then have h2: "0 < updatesToPerform ?st" by simp
  from throttle_policy[OF h1 h2] obtain st' where
    "loop ?st = Some st'" "frameCountRef st' = frameCountRef ?st + 1"
    "calls st' = calls ?st @ replicate (nat (updatesToPerform ?st)) Sweep @
       (if speedRef ?st < 1 \<or> frameCountRef st' mod 10 = 0 then [Analyze] else [])"
    by blast
  moreover have "speedRef ?st = 1" "frameCountRef ?st = 9" "calls ?st = []"
    by (simp_all add: demo_state_def)
  ultimately have "map_option frameCountRef (loop ?st) = Some 10"
    "map_option calls (loop ?st) = Some [Sweep, Analyze]"
    by (simp_all add: u)
  with h1 h2 show ?thesis by (intro conjI)
qed

lemma tenth_step: "(fc + 1) div 10 - fc div 10 = (if (fc + 1) mod 10 = 0 then 1 else (0::nat))"
  by presburger

text \<open>
  At a speed of at least 1 every tick of a running application makes a sweep, so the
  frame counter counts the ticks, and the analyses made in \<open>n\<close> ticks are the multiples
  of 10 that the counter passes.
\<close>

lemma throttle_every_tenth:
  "runningRef st \<Longrightarrow> 1 \<le> speedRef st \<Longrightarrow> 0 \<le> accumulatorRef st \<Longrightarrow>
   \<exists>st'. ticks n st = Some st' \<and> frameCountRef st' = frameCountRef st + n \<and>
     count_calls Analyze st' =
       count_calls Analyze st + ((frameCountRef st + n) div 10 - frameCountRef st div 10)"
proof (induction n arbitrary: st)
  case 0
  then show ?case by simp
next
  case (Suc n)
  from Suc.prems have "1 \<le> accumulatorRef st + speedRef st" by simp
  from binary64_ge_one[OF this] have a1: "1 \<le> accumulated st" by (simp add: accumulated_def)
  then have u: "0 < updatesToPerform st" by (simp add: updatesToPerform_def)
  from loop_busy[OF Suc.prems(1) u] obtain st1 where
    st1: "loop st = Some st1" "runningRef st1" "speedRef st1 = speedRef st"
    "accumulatorRef st1 = binary64 (accumulated st - of_int (updatesToPerform st))"
    "frameCountRef st1 = frameCountRef st + 1"
    "calls st1 = calls st @ replicate (nat (updatesToPerform st)) Sweep @
       (if speedRef st < 1 \<or> (frameCountRef st + 1) mod 10 = 0 then [Analyze] else [])"
    by blast
  have "0 \<le> accumulated st - of_int (updatesToPerform st)"
    by (simp add: updatesToPerform_def)
  from binary64_nonneg[OF this] st1(4) have acc: "0 \<le> accumulatorRef st1" by simp
  have "count_list (replicate k Sweep) Analyze = 0" for k by (induction k) simp_all
  with st1(6) Suc.prems(2) have "count_calls Analyze st1 =
      count_calls Analyze st + (if (frameCountRef st + 1) mod 10 = 0 then 1 else 0)"
    by (simp add: count_calls_def)
  then have c1: "count_calls Analyze st1 =
      count_calls Analyze st + ((frameCountRef st + 1) div 10 - frameCountRef st div 10)"
    by (simp only: tenth_step)
  from Suc.prems(2) st1(3) have sp: "1 \<le> speedRef st1" by simp
  from Suc.IH[OF st1(2) sp acc] obtain st' where
    st': "ticks n st1 = Some st'" "frameCountRef st' = frameCountRef st1 + n"
    "count_calls Analyze st' =
       count_calls Analyze st1 + ((frameCountRef st1 + n) div 10 - frameCountRef st1 div 10)"
    by blast
  have m: "frameCountRef st div 10 \<le> (frameCountRef st + 1) div 10"
    "(frameCountRef st + 1) div 10 \<le> (frameCountRef st + 1 + n) div 10"
    by (simp_all add: div_le_mono)
  from st1(1) st'(1) have "ticks (Suc n) st = Some st'" by simp
  moreover from st'(2) st1(5) have "frameCountRef st' = frameCountRef st + Suc n" by simp
  moreover have "count_calls Analyze st' =
       count_calls Analyze st + ((frameCountRef st + Suc n) div 10 - frameCountRef st div 10)"
  proof -
    have e: "frameCountRef st + Suc n = frameCountRef st + 1 + n" by simp
    from st'(3)[unfolded st1(5)] c1 m show ?thesis unfolding e by linarith
  qed
  ultimately show ?case by blast
qed

section \<open>Step and reset\<close>

text \<open>
  Claim C6, as the code has it. Step-once makes one sweep and then one analysis, and
  leaves the accumulator and the frame counter as they are. Reset makes no call of
  either: it replaces the grid by a new lattice of the current size, clears the
  statistics, stops the run and sets the frame counter and the accumulator to 0.
\<close>

theorem step_and_reset:
  "(\<exists>st'. handleStep st = Some st' \<and> calls st' = calls st @ [Sweep, Analyze] \<and>
          accumulatorRef st' = accumulatorRef st \<and> frameCountRef st' = frameCountRef st) \<and>
   calls (handleReset st) = calls st \<and>
   is_lattice (gridRef (handleReset st)) (size_state st) \<and>
   stats (handleReset st) = [] \<and> \<not> runningRef (handleReset st) \<and>
   frameCountRef (handleReset st) = 0 \<and> accumulatorRef (handleReset st) = 0"
proof -
  let ?st1 = "sweep st"
  let ?st2 = "?st1\<lparr>gridData := gridRef ?st1\<rparr>"
  from analyse_some[of ?st2] obtain d where
    "analyse ?st2 = Some (?st2\<lparr>stats := d, calls := calls ?st2 @ [Analyze]\<rparr>)" by blast
  then have "\<exists>st'. handleStep st = Some st' \<and> calls st' = calls st @ [Sweep, Analyze] \<and>
          accumulatorRef st' = accumulatorRef st \<and> frameCountRef st' = frameCountRef st"
    by (simp add: handleStep_def Let_def sweep_fields)
  moreover have "is_lattice (gridRef (handleReset st)) (size_state st)"
    by (simp add: handleReset_def Let_def createGrid_lattice)
  ultimately show ?thesis by (simp add: handleReset_def Let_def)
qed

text \<open>
  Claim C6 as stated fails for reset: on a state with no call made yet, reset leaves
  the log empty, so it makes neither a sweep nor an analysis.
\<close>

theorem reset_counterexample:
  "calls (demo_state 1) = [] \<and> calls (handleReset (demo_state 1)) = [] \<and>
   count_calls Sweep (handleReset (demo_state 1)) = 0 \<and>
   count_calls Analyze (handleReset (demo_state 1)) = 0"
  by (simp add: handleReset_def Let_def demo_state_def count_calls_def)

end
